theory Spec2Isabelle
  imports Main "HOL-Library.Word" "HOL-Library.Sublist"
begin

section \<open>Knuth-Morris-Pratt search of string/search/kmp/c/main.c\<close>

text \<open>
  The function \<open>kmp\<close> of the source builds a transition table
  \<open>size_t dfa[RADIX][patternlen]\<close> in an automatic variable-length array and then runs
  the automaton over the text. The embedding follows it statement by statement.

  \<^item> A C string is the list of its bytes; \<open>strlen\<close> stops at the first zero byte.
  \<^item> Plain \<open>char\<close> is signed or unsigned, as the implementation defines it; the flag
    \<open>sg\<close> says which. The cast \<open>(size_t)pattern[j]\<close> sign-extends when it is signed.
  \<^item> \<open>size_t\<close> is 64 bits wide. Counters, lengths and table cells are natural
    numbers (none of them is incremented beyond a length); the returned offset
    \<open>i - patternlen + 1\<close> is computed in 64-bit words, where it wraps.
  \<^item> The array is not initialised by its declaration: the table starts as an arbitrary
    function \<open>g\<close>, the contents of the stack at that moment.
  \<^item> An access outside \<open>dfa[RADIX][patternlen]\<close> is undefined behaviour in C; the
    model stops there with \<open>OutOfBounds\<close>.
  \<^item> The result is \<open>Some k\<close> for the pointer \<open>&text[k]\<close> and \<open>None\<close> for \<open>NULL\<close>.
\<close>

subsection \<open>Data\<close>

datatype error = OutOfBounds

type_synonym cstring = "8 word list"

type_synonym table = "nat \<Rightarrow> nat \<Rightarrow> nat"

definition RADIX :: nat where
  "RADIX = 256"

definition strlen :: "cstring \<Rightarrow> nat" where
  "strlen s = length (takeWhile (\<lambda>c. c \<noteq> 0) s)"

text \<open>The cast \<open>(size_t)c\<close> of a plain \<open>char\<close>.\<close>

definition to_size_t :: "bool \<Rightarrow> 8 word \<Rightarrow> nat" where
  "to_size_t sg c = (if sg then unat (scast c :: 64 word) else unat (ucast c :: 64 word))"

text \<open>Reading and writing \<open>dfa[c][j]\<close> in an array of \<open>RADIX\<close> rows and \<open>m\<close> columns.\<close>

definition rd :: "nat \<Rightarrow> table \<Rightarrow> nat \<Rightarrow> nat \<Rightarrow> error + nat" where
  "rd m dfa c j = (if c < RADIX \<and> j < m then Inr (dfa c j) else Inl OutOfBounds)"

definition wr :: "nat \<Rightarrow> table \<Rightarrow> nat \<Rightarrow> nat \<Rightarrow> nat \<Rightarrow> error + table" where
  "wr m dfa c j v =
     (if c < RADIX \<and> j < m then Inr (dfa(c := (dfa c)(j := v))) else Inl OutOfBounds)"

subsection \<open>Building the automaton\<close>

text \<open>\<open>for (size_t i = 1; i < RADIX; i++) dfa[i][0] = 0;\<close>\<close>

function init_loop :: "nat \<Rightarrow> table \<Rightarrow> nat \<Rightarrow> error + table" where
  "init_loop m dfa i =
     (if i < RADIX then
        (case wr m dfa i 0 0 of
           Inl e \<Rightarrow> Inl e
         | Inr dfa' \<Rightarrow> init_loop m dfa' (i + 1))
      else Inr dfa)"
  by pat_completeness auto
termination
  by (relation "measure (\<lambda>(m, dfa, i). RADIX - i)") auto

text \<open>\<open>for (size_t c = 0; c < RADIX; c++) dfa[c][j] = dfa[c][state];\<close>\<close>

function copy_loop :: "nat \<Rightarrow> nat \<Rightarrow> nat \<Rightarrow> table \<Rightarrow> nat \<Rightarrow> error + table" where
  "copy_loop m j state dfa c =
     (if c < RADIX then
        (case rd m dfa c state of
           Inl e \<Rightarrow> Inl e
         | Inr v \<Rightarrow>
             (case wr m dfa c j v of
                Inl e \<Rightarrow> Inl e
              | Inr dfa' \<Rightarrow> copy_loop m j state dfa' (c + 1)))
      else Inr dfa)"
  by pat_completeness auto
termination
  by (relation "measure (\<lambda>(m, j, state, dfa, c). RADIX - c)") auto

text \<open>
  One iteration of \<open>for (size_t j = 1; j < patternlen; j++)\<close>: copy the column of the
  restart state, override the entry of \<open>pattern[j]\<close>, move the restart state.
\<close>

definition build_step ::
  "bool \<Rightarrow> cstring \<Rightarrow> nat \<Rightarrow> table \<Rightarrow> nat \<Rightarrow> nat \<Rightarrow> error + (table \<times> nat)" where
  "build_step sg pattern m dfa state j =
     (case copy_loop m j state dfa 0 of
        Inl e \<Rightarrow> Inl e
      | Inr d1 \<Rightarrow>
          (case wr m d1 (to_size_t sg (pattern ! j)) j (j + 1) of
             Inl e \<Rightarrow> Inl e
           | Inr d2 \<Rightarrow>
               (case rd m d2 (to_size_t sg (pattern ! j)) state of
                  Inl e \<Rightarrow> Inl e
                | Inr state' \<Rightarrow> Inr (d2, state'))))"

function build_loop ::
  "bool \<Rightarrow> cstring \<Rightarrow> nat \<Rightarrow> table \<Rightarrow> nat \<Rightarrow> nat \<Rightarrow> error + (table \<times> nat)" where
  "build_loop sg pattern m dfa state j =
     (if j < m then
        (case build_step sg pattern m dfa state j of
           Inl e \<Rightarrow> Inl e
         | Inr (dfa', state') \<Rightarrow> build_loop sg pattern m dfa' state' (j + 1))
      else Inr (dfa, state))"
  by pat_completeness auto
termination
  by (relation "measure (\<lambda>(sg, pattern, m, dfa, state, j). m - j)") auto

text \<open>
  Lines 42 to 63 of the source: the table of \<open>patternlen\<close> columns declared over the
  stack contents \<open>g\<close>, column 0, then the columns 1 to \<open>patternlen - 1\<close>.
\<close>

definition build :: "bool \<Rightarrow> table \<Rightarrow> cstring \<Rightarrow> error + table" where
  "build sg g pattern =
     (let patternlen = strlen pattern in
      case init_loop patternlen g 1 of
        Inl e \<Rightarrow> Inl e
      | Inr d0 \<Rightarrow>
          (case wr patternlen d0 (to_size_t sg (pattern ! 0)) 0 1 of
             Inl e \<Rightarrow> Inl e
           | Inr d1 \<Rightarrow>
               (case build_loop sg pattern patternlen d1 0 1 of
                  Inl e \<Rightarrow> Inl e
                | Inr (d2, state) \<Rightarrow> Inr d2)))"

subsection \<open>Running the automaton\<close>

text \<open>The index of \<open>&text[i - patternlen + 1]\<close>, in \<open>size_t\<close> arithmetic.\<close>

definition match_offset :: "nat \<Rightarrow> nat \<Rightarrow> nat" where
  "match_offset i patternlen =
     unat ((word_of_nat i :: 64 word) - word_of_nat patternlen + 1)"

function run_loop ::
  "bool \<Rightarrow> cstring \<Rightarrow> nat \<Rightarrow> nat \<Rightarrow> table \<Rightarrow> nat \<Rightarrow> nat \<Rightarrow> error + nat option" where
  "run_loop sg text textlen m dfa state i =
     (if i < textlen then
        (case rd m dfa (to_size_t sg (text ! i)) state of
           Inl e \<Rightarrow> Inl e
         | Inr state' \<Rightarrow>
             if state' \<ge> m then Inr (Some (match_offset i m))
             else run_loop sg text textlen m dfa state' (i + 1))
      else Inr None)"
  by pat_completeness auto
termination
  by (relation "measure (\<lambda>(sg, text, textlen, m, dfa, state, i). textlen - i)") auto

text \<open>Lines 65 to 77 of the source, on a table of \<open>patternlen\<close> columns.\<close>

definition scan :: "bool \<Rightarrow> nat \<Rightarrow> table \<Rightarrow> cstring \<Rightarrow> error + nat option" where
  "scan sg patternlen dfa text = run_loop sg text (strlen text) patternlen dfa 0 0"

definition kmp :: "bool \<Rightarrow> table \<Rightarrow> cstring \<Rightarrow> cstring \<Rightarrow> error + nat option" where
  "kmp sg g text pattern =
     (case build sg g pattern of
        Inl e \<Rightarrow> Inl e
      | Inr dfa \<Rightarrow> scan sg (strlen pattern) dfa text)"


subsection \<open>Strings and the alphabet\<close>

text \<open>A string literal of the source: the bytes of its characters.\<close>

definition bytes :: "string \<Rightarrow> cstring" where
  "bytes s = map of_char s"

text \<open>
  The characters that index a row of the table: those whose cast to \<open>size_t\<close> is below
  \<open>RADIX\<close>.
\<close>

definition in_alphabet :: "bool \<Rightarrow> cstring \<Rightarrow> bool" where
  "in_alphabet sg s = (\<forall>c\<in>set s. to_size_t sg c < RADIX)"

subsection \<open>What a search has to return\<close>

text \<open>
  \<open>occurs_at p t i\<close>: the slice \<open>t[i .. i + len(p))\<close> equals \<open>p\<close>.
  \<open>leftmost_match p t\<close> is the smallest such offset, or \<open>None\<close> when there is none;
  it is the reference the source is compared with, written after the specification.
\<close>

definition occurs_at :: "'a list \<Rightarrow> 'a list \<Rightarrow> nat \<Rightarrow> bool" where
  "occurs_at p t i = (take (length p) (drop i t) = p)"

definition leftmost_match :: "'a list \<Rightarrow> 'a list \<Rightarrow> nat option" where
  "leftmost_match p t = find (occurs_at p t) [0..<Suc (length t)]"

text \<open>
  The state the run loop holds after \<open>k\<close> characters of the text, when it has not
  returned before.
\<close>

definition dfa_state :: "bool \<Rightarrow> table \<Rightarrow> cstring \<Rightarrow> nat \<Rightarrow> nat" where
  "dfa_state sg dfa t k = fold (\<lambda>c s. dfa (to_size_t sg c) s) (take k t) 0"

subsection \<open>The automaton the table has to hold\<close>

text \<open>
  \<open>overlap p w\<close> is the length of the longest prefix of \<open>p\<close> that is a suffix of
  \<open>w\<close>: the state of the automaton after reading \<open>w\<close>. \<open>delta\<close> is its transition
  function and \<open>restart p j\<close> the state reached on \<open>p[1 .. j)\<close>, the restart state of
  the builder at column \<open>j\<close>.
\<close>

definition overlap :: "'a list \<Rightarrow> 'a list \<Rightarrow> nat" where
  "overlap p w = Max (set (filter (\<lambda>k. suffix (take k p) w) [0..<Suc (length p)]))"

definition delta :: "'a list \<Rightarrow> nat \<Rightarrow> 'a \<Rightarrow> nat" where
  "delta p j c = overlap p (take j p @ [c])"

definition restart :: "'a list \<Rightarrow> nat \<Rightarrow> nat" where
  "restart p j = overlap p (tl (take j p))"

text \<open>
  The table over the stack contents \<open>g\<close> when the columns below \<open>j\<close> are built: the
  rows 1 to 255 hold the automaton, row 0 still holds what \<open>dfa[0][0]\<close> held in \<open>g\<close>.
\<close>

definition table_upto :: "cstring \<Rightarrow> table \<Rightarrow> table \<Rightarrow> nat \<Rightarrow> bool" where
  "table_upto p g dfa j =
     (\<forall>s<j. \<forall>r<RADIX. dfa r s = (if r = 0 then g 0 0 else delta p s (word_of_nat r)))"

text \<open>
  Two tables agree below column \<open>j\<close>: their rows 1 to 255 hold the same entries
  there, each at most one more than its column.
\<close>

definition tables_agree :: "nat \<Rightarrow> table \<Rightarrow> table \<Rightarrow> bool" where
  "tables_agree j da db =
     (\<forall>r. 0 < r \<and> r < RADIX \<longrightarrow> (\<forall>c<j. da r c = db r c \<and> da r c \<le> Suc c))"

declare init_loop.simps [simp del]
declare copy_loop.simps [simp del]
declare build_loop.simps [simp del]
declare run_loop.simps [simp del]

section \<open>The automaton of a pattern\<close>

lemma overlap_set: "set (filter (\<lambda>k. suffix (take k p) w) [0..<Suc (length p)]) = {k. k \<le> length p \<and> suffix (take k p) w}"
  by (auto simp del: upt_Suc)

lemma overlap_Max: "overlap p w = Max {k. k \<le> length p \<and> suffix (take k p) w}"
  by (simp only: overlap_def overlap_set)

lemma overlap_fin: "finite {k. k \<le> length p \<and> suffix (take k p) w}"
  by simp

lemma overlap_suffix: "suffix (take (overlap p w) p) w" and overlap_le: "overlap p w \<le> length p"
proof -
  let ?S = "{k. k \<le> length p \<and> suffix (take k p) w}"
  have "0 \<in> ?S" by simp
  then have "?S \<noteq> {}" by blast
  then have "Max ?S \<in> ?S" using overlap_fin by (rule_tac Max_in) auto
  then show "suffix (take (overlap p w) p) w" "overlap p w \<le> length p"
    by (simp_all add: overlap_Max)
qed

lemma overlap_max: "k \<le> length p \<Longrightarrow> suffix (take k p) w \<Longrightarrow> k \<le> overlap p w"
  unfolding overlap_Max by (rule Max_ge) auto

lemma overlap_le_length: "overlap p w \<le> length w"
  using overlap_suffix[of p w] overlap_le[of p w] suffix_length_le by fastforce

lemma overlap_cong:
  assumes "\<And>k. k \<le> length p \<Longrightarrow> suffix (take k p) w = suffix (take k p) w'"
  shows "overlap p w = overlap p w'"
proof -
  have "{k. k \<le> length p \<and> suffix (take k p) w} = {k. k \<le> length p \<and> suffix (take k p) w'}"
    using assms by auto
  then show ?thesis by (simp only: overlap_Max)
qed

lemma overlap_snoc: "overlap p (w @ [c]) = delta p (overlap p w) c"
  unfolding delta_def
proof (rule overlap_cong)
  fix k assume k: "k \<le> length p"
  let ?s = "overlap p w"
  show "suffix (take k p) (w @ [c]) = suffix (take k p) (take ?s p @ [c])"
  proof (cases k)
    case 0 then show ?thesis by simp
  next
    case (Suc k')
    then have tk: "take k p = take k' p @ [p ! k']" using k by (simp add: take_Suc_conv_app_nth)
    show ?thesis
    proof
      assume "suffix (take k p) (w @ [c])"
      then have c: "p ! k' = c" and s: "suffix (take k' p) w" using tk by auto
      have "k' \<le> ?s" using s k Suc by (intro overlap_max) auto
      then have "suffix (take k' p) (take ?s p)"
        using suffix_length_suffix[OF s overlap_suffix[of p w]] k Suc overlap_le[of p w] by simp
      then show "suffix (take k p) (take ?s p @ [c])" using tk c by simp
    next
      assume "suffix (take k p) (take ?s p @ [c])"
      moreover have "suffix (take ?s p @ [c]) (w @ [c])" using overlap_suffix[of p w] by simp
      ultimately show "suffix (take k p) (w @ [c])" using suffix_order.trans by blast
    qed
  qed
qed

lemma overlap_prefix: "j \<le> length p \<Longrightarrow> overlap p (take j p) = j"
proof (rule antisym)
  assume j: "j \<le> length p"
  show "overlap p (take j p) \<le> j" using overlap_le_length[of p "take j p"] j by simp
  show "j \<le> overlap p (take j p)" using j by (intro overlap_max) auto
qed

lemma delta_hit: "j < length p \<Longrightarrow> delta p j (p ! j) = Suc j"
  using overlap_prefix[of "Suc j" p] by (simp add: delta_def take_Suc_conv_app_nth)

lemma delta_le: "delta p j c \<le> Suc j"
  using overlap_le_length[of p "take j p @ [c]"] by (simp add: delta_def)

lemma delta_le_length: "delta p j c \<le> length p"
  by (simp add: delta_def overlap_le)

lemma delta_zero: "c \<noteq> p ! 0 \<Longrightarrow> delta p 0 c = 0"
proof -
  assume c: "c \<noteq> p ! 0"
  have "delta p 0 c \<le> 1" using delta_le[of p 0 c] by simp
  moreover have "delta p 0 c \<noteq> 1"
  proof
    assume e: "delta p 0 c = 1"
    have l: "1 \<le> length p" using delta_le_length[of p 0 c] e by simp
    have "suffix (take 1 p) [c]" using overlap_suffix[of p "[c]"] e by (simp add: delta_def)
    moreover have "take 1 p = [p ! 0]" using l by (cases p) auto
    ultimately show False using c by (auto simp: suffix_Cons)
  qed
  ultimately show ?thesis by arith
qed

lemma suffix_shorter_tl:
  "suffix xs ys \<Longrightarrow> length xs < length ys \<Longrightarrow> suffix xs (tl ys)"
  by (cases ys) (auto simp: suffix_Cons)

lemma delta_miss:
  assumes j: "0 < j" "j < length p" and c: "c \<noteq> p ! j"
  shows "delta p j c = delta p (restart p j) c"
proof -
  have "overlap p (take j p @ [c]) = overlap p (tl (take j p) @ [c])"
  proof (rule overlap_cong)
    fix k assume k: "k \<le> length p"
    have tl: "tl (take j p) @ [c] = tl (take j p @ [c])" using j by (cases p) auto
    show "suffix (take k p) (take j p @ [c]) = suffix (take k p) (tl (take j p) @ [c])"
    proof
      assume s: "suffix (take k p) (take j p @ [c])"
      have "k \<le> Suc j" using suffix_length_le[OF s] j k by simp
      moreover have "k \<noteq> Suc j"
      proof
        assume "k = Suc j"
        then have "take k p = take j p @ [p ! j]" using j by (simp add: take_Suc_conv_app_nth)
        then show False using s c by simp
      qed
      ultimately have "length (take k p) < length (take j p @ [c])" using j k by simp
      from suffix_shorter_tl[OF s this] show "suffix (take k p) (tl (take j p) @ [c])"
        by (simp only: tl)
    next
      assume "suffix (take k p) (tl (take j p) @ [c])"
      moreover have "suffix (tl (take j p) @ [c]) (take j p @ [c])"
        unfolding tl by (rule suffix_tl)
      ultimately show "suffix (take k p) (take j p @ [c])" using suffix_order.trans by blast
    qed
  qed
  also have "\<dots> = delta p (restart p j) c"
    unfolding restart_def by (rule overlap_snoc)
  finally show ?thesis by (simp only: delta_def)
qed

lemma restart_one: "restart p (Suc 0) = 0"
  using overlap_le_length[of p "tl (take (Suc 0) p)"] by (simp add: restart_def)

lemma restart_less: "0 < j \<Longrightarrow> restart p j < j"
  using overlap_le_length[of p "tl (take j p)"] by (simp add: restart_def)

lemma restart_Suc:
  assumes "0 < j" "j < length p"
  shows "restart p (Suc j) = delta p (restart p j) (p ! j)"
proof -
  have "take (Suc j) p = take j p @ [p ! j]"
    using assms by (simp add: take_Suc_conv_app_nth)
  moreover have "take j p \<noteq> []" using assms by auto
  ultimately have "tl (take (Suc j) p) = tl (take j p) @ [p ! j]"
    by simp
  then show ?thesis unfolding restart_def by (simp only: overlap_snoc)
qed

section \<open>Characters as table rows\<close>

lemma unat8_bound: "unat (c :: 8 word) < 256"
  using unsigned_less[of c, where 'a = nat] by simp

lemma uint8_bound: "uint (c :: 8 word) < 256"
  using uint_lt2p[of c] by simp

lemma to_size_t_unsigned: "to_size_t False c = unat c"
proof -
  have "unat c < 2 ^ 64" using unat8_bound[of c] by (rule less_trans) simp
  then show ?thesis
    by (simp add: to_size_t_def unsigned_ucast_eq take_bit_nat_eq_self)
qed

lemma bit7: "bit (uint (c :: 8 word)) 7 \<longleftrightarrow> 128 \<le> uint c"
proof -
  have "0 \<le> uint c" "uint c < 256" using uint8_bound by simp_all
  then have "uint c div 128 = (if 128 \<le> uint c then 1 else 0)" by auto
  then show ?thesis by (simp add: bit_iff_odd_drop_bit drop_bit_eq_div)
qed

lemma sint8: "sint (c :: 8 word) = (if 128 \<le> uint c then uint c - 256 else uint c)"
proof -
  have "take_bit 8 (uint c) = uint c"
    using uint8_bound[of c] by (simp add: take_bit_int_eq_self)
  then show ?thesis
    using bit7[of c] by (simp add: sint_uint signed_take_bit_eq_take_bit_minus)
qed

lemma to_size_t_signed_int: "int (to_size_t True c) = sint c mod 2 ^ 64"
proof -
  have "to_size_t True c = unat (word_of_int (sint c) :: 64 word)"
    by (simp only: to_size_t_def scast_eq if_True)
  also have "int \<dots> = uint (word_of_int (sint c) :: 64 word)" by simp
  also have "\<dots> = sint c mod 2 ^ 64" by (simp only: uint_word_of_int) simp
  finally show ?thesis .
qed

lemma to_size_t_signed_low: "unat c < 128 \<Longrightarrow> to_size_t True c = unat c"
proof -
  assume "unat c < 128"
  moreover have "int (unat c) = uint c" by simp
  ultimately have "uint c < 128" by linarith
  then have s: "sint c = uint c" "0 \<le> uint c" "uint c < 128" by (simp_all add: sint8)
  have "uint c < 2 ^ 64" using s(3) by (rule less_trans) simp
  then have "sint c mod 2 ^ 64 = uint c" using s by (simp add: mod_pos_pos_trivial)
  then have "int (to_size_t True c) = int (unat c)" by (simp add: to_size_t_signed_int)
  then show ?thesis by (simp only: of_nat_eq_iff)
qed

lemma to_size_t_signed_high: "128 \<le> unat c \<Longrightarrow> to_size_t True c = 2 ^ 64 - 256 + unat c"
proof -
  define N :: int where "N = 2 ^ 64"
  have N: "256 \<le> N" by (simp add: N_def)
  assume "128 \<le> unat c"
  moreover have "int (unat c) = uint c" by simp
  ultimately have h: "128 \<le> uint c" by linarith
  have s: "sint c = uint c - 256" using h by (simp add: sint8)
  have "(uint c - 256) mod N = (uint c - 256 + N) mod N" by simp
  also have "\<dots> = uint c - 256 + N"
    using h uint8_bound[of c] N by (intro mod_pos_pos_trivial) auto
  finally have "int (to_size_t True c) = uint c - 256 + N"
    by (simp add: to_size_t_signed_int s N_def)
  also have "\<dots> = int (2 ^ 64 - 256 + unat c)"
    by (simp add: N_def)
  finally show ?thesis by (simp only: of_nat_eq_iff)
qed

lemma to_size_t_in_range: "to_size_t sg c < RADIX \<longleftrightarrow> (sg \<longrightarrow> unat c < 128)"
proof (cases sg)
  case False
  then show ?thesis using unat8_bound[of c] by (simp add: to_size_t_unsigned RADIX_def)
next
  case True
  show ?thesis
  proof (cases "unat c < 128")
    case l: True
    then show ?thesis using True by (simp add: to_size_t_signed_low RADIX_def)
  next
    case h: False
    then have "to_size_t True c = 2 ^ 64 - 256 + unat c" by (simp add: to_size_t_signed_high)
    then have "\<not> to_size_t True c < RADIX" by (simp add: RADIX_def)
    then show ?thesis using True h by simp
  qed
qed

lemma to_size_t_unat: "to_size_t sg c < RADIX \<Longrightarrow> to_size_t sg c = unat c"
  using to_size_t_in_range[of sg c]
  by (cases sg) (simp_all add: to_size_t_unsigned to_size_t_signed_low)

lemma match_offset_eq:
  assumes "0 < m" "m \<le> Suc i" "i < 2 ^ 64"
  shows "match_offset i m = Suc i - m"
proof -
  have "(word_of_nat i :: 64 word) - word_of_nat m + 1 = word_of_nat (Suc i - m)"
    using assms(2) by (simp add: of_nat_diff)
  moreover have "Suc i - m \<le> i" using assms(1) by arith
  then have "Suc i - m < 2 ^ 64" using assms(3) by (rule le_less_trans)
  ultimately show ?thesis
    by (simp add: match_offset_def unat_of_nat take_bit_nat_eq_self del: of_nat_diff)
qed

lemma row_char: "r < RADIX \<Longrightarrow> unat (word_of_nat r :: 8 word) = r"
  by (simp add: RADIX_def unat_of_nat)

lemma strlen_no_nul: "0 \<notin> set s \<Longrightarrow> strlen s = length s"
proof -
  assume "0 \<notin> set s"
  then have "\<forall>c\<in>set s. c \<noteq> 0" by auto
  then have "takeWhile (\<lambda>c. c \<noteq> 0) s = s" by (rule takeWhile_eq_all_conv[THEN iffD2])
  then show ?thesis by (simp only: strlen_def)
qed

section \<open>The loops of the builder\<close>

lemma init_loop_closed:
  "0 < m \<Longrightarrow> init_loop m dfa i =
     Inr (\<lambda>r. if i \<le> r \<and> r < RADIX then (dfa r)(0 := 0) else dfa r)"
proof (induction m dfa i rule: init_loop.induct)
  case (1 m dfa i)
  show ?case
  proof (cases "i < RADIX")
    case True
    have w: "wr m dfa i 0 0 = Inr (dfa(i := (dfa i)(0 := 0)))"
      using True 1(2) by (simp add: wr_def)
    have "init_loop m dfa i = init_loop m (dfa(i := (dfa i)(0 := 0))) (i + 1)"
      using True w by (subst init_loop.simps) simp
    also have "\<dots> = Inr (\<lambda>r. if i + 1 \<le> r \<and> r < RADIX then ((dfa(i := (dfa i)(0 := 0))) r)(0 := 0) else (dfa(i := (dfa i)(0 := 0))) r)"
      using 1(1)[OF True w 1(2)] .
    also have "\<dots> = Inr (\<lambda>r. if i \<le> r \<and> r < RADIX then (dfa r)(0 := 0) else dfa r)"
      using True by (auto simp: fun_eq_iff)
    finally show ?thesis .
  next
    case False
    then show ?thesis by (subst init_loop.simps) (auto simp: fun_eq_iff)
  qed
qed

lemma init_loop_empty: "i < RADIX \<Longrightarrow> init_loop 0 dfa i = Inl OutOfBounds"
  by (subst init_loop.simps) (simp add: wr_def)

lemma copy_loop_closed:
  "state < m \<Longrightarrow> j < m \<Longrightarrow> copy_loop m j state dfa c =
     Inr (\<lambda>r. if c \<le> r \<and> r < RADIX then (dfa r)(j := dfa r state) else dfa r)"
proof (induction m j state dfa c rule: copy_loop.induct)
  case (1 m j state dfa c)
  show ?case
  proof (cases "c < RADIX")
    case True
    let ?d = "dfa(c := (dfa c)(j := dfa c state))"
    have r: "rd m dfa c state = Inr (dfa c state)"
      using True 1(2) by (simp add: rd_def)
    have w: "wr m dfa c j (dfa c state) = Inr ?d"
      using True 1(3) by (simp add: wr_def)
    have "copy_loop m j state dfa c = copy_loop m j state ?d (c + 1)"
      using True r w by (subst copy_loop.simps) simp
    also have "\<dots> = Inr (\<lambda>r. if c + 1 \<le> r \<and> r < RADIX then (?d r)(j := ?d r state) else ?d r)"
      using 1(1)[OF True r w 1(2) 1(3)] .
    also have "\<dots> = Inr (\<lambda>r. if c \<le> r \<and> r < RADIX then (dfa r)(j := dfa r state) else dfa r)"
      using True by (auto simp: fun_eq_iff)
    finally show ?thesis .
  next
    case False
    then show ?thesis by (subst copy_loop.simps) (auto simp: fun_eq_iff)
  qed
qed

lemma build_step_closed:
  assumes "state < m" "j < m" "to_size_t sg (pattern ! j) < RADIX"
  shows "build_step sg pattern m dfa state j =
     (let x = unat (pattern ! j);
          d2 = (\<lambda>r. if r < RADIX then (dfa r)(j := if r = x then j + 1 else dfa r state) else dfa r)
      in Inr (d2, d2 x state))"
proof -
  let ?x = "unat (pattern ! j)"
  have x: "to_size_t sg (pattern ! j) = ?x" "?x < RADIX"
    using assms(3) to_size_t_unat[OF assms(3)] by simp_all
  let ?d1 = "\<lambda>r. if 0 \<le> r \<and> r < RADIX then (dfa r)(j := dfa r state) else dfa r"
  let ?d2 = "?d1(?x := (?d1 ?x)(j := j + 1))"
  have c: "copy_loop m j state dfa 0 = Inr ?d1"
    by (rule copy_loop_closed[OF assms(1,2)])
  have w: "wr m ?d1 ?x j (j + 1) = Inr ?d2"
    using x assms(2) by (simp add: wr_def)
  have r: "rd m ?d2 ?x state = Inr (?d2 ?x state)"
    using x assms(1) by (simp add: rd_def)
  have e: "?d2 = (\<lambda>r. if r < RADIX then (dfa r)(j := if r = ?x then j + 1 else dfa r state) else dfa r)"
    using x by (auto simp: fun_eq_iff)
  have "build_step sg pattern m dfa state j = Inr (?d2, ?d2 ?x state)"
    by (simp only: build_step_def x(1) c w r sum.case)
  then show ?thesis by (simp only: e Let_def)
qed

lemma unat_nonzero: "(c :: 8 word) \<noteq> 0 \<Longrightarrow> unat c \<noteq> 0"
  by (simp add: unat_eq_0)

lemma row_of_pattern:
  assumes "0 \<notin> set p" "in_alphabet sg p" "j < length p"
  shows "to_size_t sg (p ! j) < RADIX" "unat (p ! j) < RADIX" "unat (p ! j) \<noteq> 0"
proof -
  have m: "p ! j \<in> set p" using assms(3) by simp
  show a: "to_size_t sg (p ! j) < RADIX" using assms(2) m by (simp add: in_alphabet_def)
  show "unat (p ! j) < RADIX" using a to_size_t_unat[OF a] by simp
  have "p ! j \<noteq> 0" using assms(1) m by metis
  then show "unat (p ! j) \<noteq> 0" by (rule unat_nonzero)
qed

lemma table_column:
  assumes "table_upto p g dfa j" "s < j" "r < RADIX" "r \<noteq> 0"
  shows "dfa r s = delta p s (word_of_nat r)"
  using assms by (simp add: table_upto_def)

lemma build_step_inv:
  assumes p: "0 \<notin> set p" "in_alphabet sg p"
    and j: "0 < j" "j < length p"
    and t: "table_upto p g dfa j"
  shows "\<exists>dfa'. build_step sg p (length p) dfa (restart p j) j = Inr (dfa', restart p (Suc j))
           \<and> table_upto p g dfa' (Suc j)"
proof -
  let ?X = "restart p j"
  let ?x = "unat (p ! j)"
  let ?d2 = "\<lambda>r. if r < RADIX then (dfa r)(j := if r = ?x then j + 1 else dfa r ?X) else dfa r"
  have X: "?X < j" using j(1) by (rule restart_less)
  have x: "to_size_t sg (p ! j) < RADIX" "?x < RADIX" "?x \<noteq> 0"
    using row_of_pattern[OF p j(2)] by simp_all
  have st: "build_step sg p (length p) dfa ?X j = Inr (?d2, ?d2 ?x ?X)"
    using build_step_closed[of ?X "length p" j sg p dfa] X j x(1) by (simp add: Let_def)
  have "?d2 ?x ?X = dfa ?x ?X" using X x by simp
  also have "\<dots> = delta p ?X (p ! j)"
    using table_column[OF t X x(2,3)] by simp
  also have "\<dots> = restart p (Suc j)" using restart_Suc[OF j] by simp
  finally have s': "?d2 ?x ?X = restart p (Suc j)" .
  have "table_upto p g ?d2 (Suc j)"
    unfolding table_upto_def
  proof (intro allI impI)
    fix s r assume s: "s < Suc j" and r: "r < RADIX"
    show "?d2 r s = (if r = 0 then g 0 0 else delta p s (word_of_nat r))"
    proof (cases "s = j")
      case False
      then have "s < j" using s by simp
      then have "dfa r s = (if r = 0 then g 0 0 else delta p s (word_of_nat r))"
        using t r by (simp add: table_upto_def)
      then show ?thesis using False r by simp
    next
      case True
      have old: "dfa r ?X = (if r = 0 then g 0 0 else delta p ?X (word_of_nat r))"
        using t r X by (simp add: table_upto_def)
      show ?thesis
      proof (cases "r = ?x")
        case rx: True
        then have "?d2 r s = Suc j" using True r by simp
        moreover have "delta p j (word_of_nat r) = Suc j"
          using delta_hit[OF j(2)] rx by simp
        ultimately show ?thesis using rx x True by simp
      next
        case rx: False
        have ne: "(word_of_nat r :: 8 word) \<noteq> p ! j"
        proof
          assume "(word_of_nat r :: 8 word) = p ! j"
          then have "unat (word_of_nat r :: 8 word) = ?x" by simp
          then show False using rx row_char[OF r] by simp
        qed
        have "?d2 r s = dfa r ?X" using True r rx by simp
        moreover have "delta p j (word_of_nat r :: 8 word) = delta p ?X (word_of_nat r)"
          using delta_miss[OF j ne] .
        ultimately show ?thesis using old True by simp
      qed
    qed
  qed
  then show ?thesis using st s' by simp
qed

lemma build_loop_inv:
  assumes "0 \<notin> set p" "in_alphabet sg p" "0 < j" "j \<le> length p" "table_upto p g dfa j"
  shows "\<exists>dfa'. build_loop sg p (length p) dfa (restart p j) j = Inr (dfa', restart p (length p))
           \<and> table_upto p g dfa' (length p)"
  using assms
proof (induction "length p - j" arbitrary: j dfa)
  case 0
  then have "j = length p" by simp
  then show ?case using 0 by (subst build_loop.simps) simp
next
  case (Suc n)
  then have j: "j < length p" by simp
  obtain d where d: "build_step sg p (length p) dfa (restart p j) j = Inr (d, restart p (Suc j))"
    "table_upto p g d (Suc j)"
    using build_step_inv[OF Suc(3,4,5) j Suc(7)] by blast
  have "n = length p - Suc j" using Suc(2) by simp
  from Suc(1)[OF this Suc(3,4) _ _ d(2)] j
  obtain dfa' where "build_loop sg p (length p) d (restart p (Suc j)) (Suc j) = Inr (dfa', restart p (length p))"
    "table_upto p g dfa' (length p)" by auto
  then show ?case using j d(1) by (subst build_loop.simps) simp
qed

lemma build_table:
  assumes "p \<noteq> []" "0 \<notin> set p" "in_alphabet sg p"
  shows "\<exists>dfa. build sg g p = Inr dfa \<and> table_upto p g dfa (length p)"
proof -
  let ?m = "length p"
  let ?x = "unat (p ! 0)"
  have m: "0 < ?m" using assms(1) by simp
  have x: "to_size_t sg (p ! 0) < RADIX" "?x < RADIX" "?x \<noteq> 0"
    using row_of_pattern[OF assms(2,3) m] by simp_all
  let ?d0 = "\<lambda>r. if 1 \<le> r \<and> r < RADIX then (g r)(0 := 0) else g r"
  let ?d1 = "?d0(?x := (?d0 ?x)(0 := 1))"
  have i: "init_loop ?m g 1 = Inr ?d0" by (rule init_loop_closed[OF m])
  have w: "wr ?m ?d0 (to_size_t sg (p ! 0)) 0 1 = Inr ?d1"
    using x m by (simp add: wr_def to_size_t_unat[OF x(1)])
  have t1: "table_upto p g ?d1 (Suc 0)"
    unfolding table_upto_def
  proof (intro allI impI)
    fix s r assume s: "s < Suc 0" and r: "r < RADIX"
    then have s0: "s = 0" by simp
    show "?d1 r s = (if r = 0 then g 0 0 else delta p s (word_of_nat r))"
    proof (cases "r = ?x")
      case True
      then show ?thesis using delta_hit[OF m] x s0 by simp
    next
      case False
      have ne: "(word_of_nat r :: 8 word) \<noteq> p ! 0"
      proof
        assume "(word_of_nat r :: 8 word) = p ! 0"
        then have "unat (word_of_nat r :: 8 word) = ?x" by simp
        then show False using False row_char[OF r] by simp
      qed
      show ?thesis using False r s0 delta_zero[OF ne] by simp
    qed
  qed
  from build_loop_inv[OF assms(2,3) _ _ t1] m
  obtain dfa' where l: "build_loop sg p ?m ?d1 0 1 = Inr (dfa', restart p ?m)"
    "table_upto p g dfa' ?m" by (auto simp: restart_one)
  have "build sg g p = Inr dfa'"
    by (simp only: build_def strlen_no_nul[OF assms(2)] Let_def i w l sum.case prod.case)
  then show ?thesis using l(2) by blast
qed

section \<open>The run loop\<close>

lemma overlap_full: "overlap p w = length p \<longleftrightarrow> suffix p w"
proof
  assume "overlap p w = length p"
  then show "suffix p w" using overlap_suffix[of p w] by simp
next
  assume "suffix p w"
  then have "length p \<le> overlap p w" by (intro overlap_max) auto
  then show "overlap p w = length p" using overlap_le[of p w] by simp
qed

lemma suffix_occurs:
  assumes "k \<le> length t"
  shows "suffix p (take k t) \<longleftrightarrow> length p \<le> k \<and> occurs_at p t (k - length p)"
proof
  assume s: "suffix p (take k t)"
  have l: "length p \<le> k" using suffix_length_le[OF s] assms by simp
  from s obtain zs where z: "take k t = zs @ p" by (auto simp: suffix_def)
  then have "length zs = k - length p"
    using assms by (metis add_diff_cancel_right' length_append length_take min.absorb2)
  then have "drop (k - length p) (take k t) = p" using z by simp
  then have "take (length p) (drop (k - length p) t) = p" using l by (simp add: drop_take)
  then show "length p \<le> k \<and> occurs_at p t (k - length p)" using l by (simp add: occurs_at_def)
next
  assume a: "length p \<le> k \<and> occurs_at p t (k - length p)"
  then have "drop (k - length p) (take k t) = p" by (simp add: occurs_at_def drop_take)
  then show "suffix p (take k t)" using suffix_drop by metis
qed

lemma occurs_bound: "p \<noteq> [] \<Longrightarrow> occurs_at p t i \<Longrightarrow> i + length p \<le> length t"
proof -
  assume p: "p \<noteq> []" and "occurs_at p t i"
  then have "length (take (length p) (drop i t)) = length p" by (simp add: occurs_at_def)
  then have "length p \<le> length t - i" by simp
  then show ?thesis using p by (cases "i \<le> length t") auto
qed

lemma row_of_text:
  assumes "0 \<notin> set t" "in_alphabet sg t" "i < length t"
  shows "to_size_t sg (t ! i) = unat (t ! i)" "unat (t ! i) < RADIX" "unat (t ! i) \<noteq> 0"
  using row_of_pattern[OF assms] to_size_t_unat[of sg "t ! i"] by simp_all

lemma table_step:
  assumes tb: "table_upto p g dfa (length p)"
    and t: "0 \<notin> set t" "in_alphabet sg t" "i < length t"
    and s: "overlap p (take i t) < length p"
  shows "dfa (to_size_t sg (t ! i)) (overlap p (take i t)) = overlap p (take (Suc i) t)"
proof -
  have r: "to_size_t sg (t ! i) = unat (t ! i)" "unat (t ! i) < RADIX" "unat (t ! i) \<noteq> 0"
    using row_of_text[OF t] by simp_all
  have "dfa (unat (t ! i)) (overlap p (take i t)) = delta p (overlap p (take i t)) (t ! i)"
    using table_column[OF tb s r(2,3)] by simp
  also have "\<dots> = overlap p (take i t @ [t ! i])" by (simp only: overlap_snoc)
  finally show ?thesis using t(3) r(1) by (simp add: take_Suc_conv_app_nth)
qed

lemma run_loop_inv:
  assumes tb: "table_upto p g dfa (length p)" and p: "p \<noteq> []"
    and t: "0 \<notin> set t" "in_alphabet sg t" "length t < 2 ^ 64"
    and i: "i \<le> length t" "overlap p (take i t) < length p"
  shows "\<exists>r. run_loop sg t (length t) (length p) dfa (overlap p (take i t)) i = Inr r \<and>
     (case r of
        None \<Rightarrow> \<forall>k. i < k \<and> k \<le> length t \<longrightarrow> overlap p (take k t) < length p
      | Some off \<Rightarrow> \<exists>k. i < k \<and> k \<le> length t \<and> overlap p (take k t) = length p \<and>
          off = k - length p \<and> (\<forall>k'. i < k' \<and> k' < k \<longrightarrow> overlap p (take k' t) < length p))"
  using i
proof (induction "length t - i" arbitrary: i)
  case 0
  then have "i = length t" by simp
  then show ?case by (subst run_loop.simps) simp
next
  case (Suc n)
  then have il: "i < length t" by simp
  let ?s = "overlap p (take i t)"
  let ?s' = "overlap p (take (Suc i) t)"
  have r: "to_size_t sg (t ! i) < RADIX"
    using row_of_text[OF t(1,2) il] by simp
  have st: "dfa (to_size_t sg (t ! i)) ?s = ?s'"
    by (rule table_step[OF tb t(1,2) il Suc(4)])
  have rd: "rd (length p) dfa (to_size_t sg (t ! i)) ?s = Inr ?s'"
    using r Suc(4) st by (simp add: rd_def)
  show ?case
  proof (cases "length p \<le> ?s'")
    case True
    then have e: "?s' = length p" using overlap_le[of p "take (Suc i) t"] by simp
    have "length p \<le> Suc i" using overlap_le_length[of p "take (Suc i) t"] e il by simp
    moreover have "i < 2 ^ 64" using il t(3) by simp
    ultimately have mo: "match_offset i (length p) = Suc i - length p"
      using p by (intro match_offset_eq) auto
    have "run_loop sg t (length t) (length p) dfa ?s i = Inr (Some (Suc i - length p))"
      using il rd True mo by (subst run_loop.simps) simp
    moreover have "\<forall>k'. i < k' \<and> k' < Suc i \<longrightarrow> overlap p (take k' t) < length p" by auto
    ultimately show ?thesis using e il by auto
  next
    case False
    then have lt: "?s' < length p" by simp
    have n: "n = length t - Suc i" using Suc(2) by simp
    from Suc(1)[OF n Suc_leI[OF il] lt] obtain r where
      r: "run_loop sg t (length t) (length p) dfa ?s' (Suc i) = Inr r"
      "(case r of
        None \<Rightarrow> \<forall>k. Suc i < k \<and> k \<le> length t \<longrightarrow> overlap p (take k t) < length p
      | Some off \<Rightarrow> \<exists>k. Suc i < k \<and> k \<le> length t \<and> overlap p (take k t) = length p \<and>
          off = k - length p \<and> (\<forall>k'. Suc i < k' \<and> k' < k \<longrightarrow> overlap p (take k' t) < length p))"
      by blast
    have run: "run_loop sg t (length t) (length p) dfa ?s i = Inr r"
      using il rd False r(1) by (subst run_loop.simps) simp
    show ?thesis
    proof (cases r)
      case None
      then have h: "\<forall>k. Suc i < k \<and> k \<le> length t \<longrightarrow> overlap p (take k t) < length p"
        using r(2) by simp
      have "\<forall>k. i < k \<and> k \<le> length t \<longrightarrow> overlap p (take k t) < length p"
      proof (intro allI impI)
        fix k assume k: "i < k \<and> k \<le> length t"
        show "overlap p (take k t) < length p"
        proof (cases "k = Suc i")
          case True then show ?thesis using lt by simp
        next
          case False then show ?thesis using h k by simp
        qed
      qed
      then show ?thesis using run None by simp
    next
      case (Some off)
      then obtain k where k: "Suc i < k" "k \<le> length t" "overlap p (take k t) = length p"
        "off = k - length p" "\<forall>k'. Suc i < k' \<and> k' < k \<longrightarrow> overlap p (take k' t) < length p"
        using r(2) by auto
      have "\<forall>k'. i < k' \<and> k' < k \<longrightarrow> overlap p (take k' t) < length p"
      proof (intro allI impI)
        fix k' assume k': "i < k' \<and> k' < k"
        show "overlap p (take k' t) < length p"
        proof (cases "k' = Suc i")
          case True then show ?thesis using lt by simp
        next
          case False then show ?thesis using k(5) k' by simp
        qed
      qed
      moreover have "i < k" using k(1) by simp
      ultimately have "\<exists>k. i < k \<and> k \<le> length t \<and> overlap p (take k t) = length p \<and>
          off = k - length p \<and> (\<forall>k'. i < k' \<and> k' < k \<longrightarrow> overlap p (take k' t) < length p)"
        using k(2,3,4) by blast
      then show ?thesis using run Some by simp
    qed
  qed
qed

lemma leftmost_match_None:
  assumes "p \<noteq> []"
  shows "leftmost_match p t = None \<longleftrightarrow> (\<forall>i. \<not> occurs_at p t i)"
proof
  assume n: "leftmost_match p t = None"
  show "\<forall>i. \<not> occurs_at p t i"
  proof (intro allI notI)
    fix i assume o: "occurs_at p t i"
    then have "i < Suc (length t)" using occurs_bound[OF assms o] by simp
    then have "i \<in> set [0..<Suc (length t)]" by (simp del: upt_Suc)
    then show False using n o unfolding leftmost_match_def find_None_iff by blast
  qed
next
  assume "\<forall>i. \<not> occurs_at p t i"
  then show "leftmost_match p t = None" by (simp add: leftmost_match_def find_None_iff)
qed

lemma leftmost_match_Some:
  assumes "p \<noteq> []"
  shows "leftmost_match p t = Some i \<longleftrightarrow> occurs_at p t i \<and> (\<forall>k<i. \<not> occurs_at p t k)"
proof -
  have n: "\<And>j. j < Suc (length t) \<Longrightarrow> [0..<Suc (length t)] ! j = j"
    by (metis add_0 nth_upt)
  show ?thesis
  proof
    assume "leftmost_match p t = Some i"
    then obtain j where j: "j < length [0..<Suc (length t)]" "occurs_at p t ([0..<Suc (length t)] ! j)"
      "i = [0..<Suc (length t)] ! j" "\<forall>k<j. \<not> occurs_at p t ([0..<Suc (length t)] ! k)"
      unfolding leftmost_match_def find_Some_iff by blast
    have jl: "j < Suc (length t)" using j(1) by (simp del: upt_Suc)
    then have ij: "i = j" using j(3) n by simp
    have "\<forall>k<i. \<not> occurs_at p t k"
    proof (intro allI impI)
      fix k assume k: "k < i"
      then have "k < Suc (length t)" using ij jl by simp
      then show "\<not> occurs_at p t k" using j(4) k ij n by metis
    qed
    then show "occurs_at p t i \<and> (\<forall>k<i. \<not> occurs_at p t k)" using j(2) ij n jl by simp
  next
    assume a: "occurs_at p t i \<and> (\<forall>k<i. \<not> occurs_at p t k)"
    then have il: "i < Suc (length t)" using occurs_bound[OF assms, of t i] by simp
    have "\<exists>j<length [0..<Suc (length t)]. occurs_at p t ([0..<Suc (length t)] ! j) \<and>
             i = [0..<Suc (length t)] ! j \<and> (\<forall>k<j. \<not> occurs_at p t ([0..<Suc (length t)] ! k))"
    proof (intro exI[of _ i] conjI allI impI)
      show "i < length [0..<Suc (length t)]" using il by (simp del: upt_Suc)
      show "occurs_at p t ([0..<Suc (length t)] ! i)" using a n[OF il] by simp
      show "i = [0..<Suc (length t)] ! i" using n[OF il] by simp
      fix k assume "k < i"
      then show "\<not> occurs_at p t ([0..<Suc (length t)] ! k)" using a n[of k] il by simp
    qed
    then show "leftmost_match p t = Some i" unfolding leftmost_match_def find_Some_iff .
  qed
qed

lemma overlap_occurs:
  assumes "k \<le> length t"
  shows "overlap p (take k t) = length p \<longleftrightarrow> length p \<le> k \<and> occurs_at p t (k - length p)"
  using suffix_occurs[OF assms] by (simp add: overlap_full)

lemma kmp_run:
  assumes p: "p \<noteq> []" "0 \<notin> set p" "in_alphabet sg p"
    and t: "0 \<notin> set t" "in_alphabet sg t" "length t < 2 ^ 64"
  shows "\<exists>dfa r. build sg g p = Inr dfa \<and> table_upto p g dfa (length p) \<and>
     kmp sg g t p = Inr r \<and>
     (case r of
        None \<Rightarrow> \<forall>k. k \<le> length t \<longrightarrow> overlap p (take k t) < length p
      | Some off \<Rightarrow> \<exists>k. k \<le> length t \<and> overlap p (take k t) = length p \<and>
          off = k - length p \<and> (\<forall>k'. k' < k \<longrightarrow> overlap p (take k' t) < length p))"
proof -
  obtain dfa where d: "build sg g p = Inr dfa" "table_upto p g dfa (length p)"
    using build_table[OF p] by blast
  have z: "overlap p (take 0 t) = 0" using overlap_le_length[of p "take 0 t"] by simp
  have m: "0 < length p" using p(1) by simp
  have "\<exists>r. run_loop sg t (length t) (length p) dfa (overlap p (take 0 t)) 0 = Inr r \<and>
     (case r of
        None \<Rightarrow> \<forall>k. 0 < k \<and> k \<le> length t \<longrightarrow> overlap p (take k t) < length p
      | Some off \<Rightarrow> \<exists>k. 0 < k \<and> k \<le> length t \<and> overlap p (take k t) = length p \<and>
          off = k - length p \<and> (\<forall>k'. 0 < k' \<and> k' < k \<longrightarrow> overlap p (take k' t) < length p))"
    by (rule run_loop_inv[OF d(2) p(1) t]) (simp_all only: z m le0)
  then obtain r where r: "run_loop sg t (length t) (length p) dfa 0 0 = Inr r"
     "(case r of
        None \<Rightarrow> \<forall>k. 0 < k \<and> k \<le> length t \<longrightarrow> overlap p (take k t) < length p
      | Some off \<Rightarrow> \<exists>k. 0 < k \<and> k \<le> length t \<and> overlap p (take k t) = length p \<and>
          off = k - length p \<and> (\<forall>k'. 0 < k' \<and> k' < k \<longrightarrow> overlap p (take k' t) < length p))"
    unfolding z by blast
  have k: "kmp sg g t p = Inr r"
    by (simp only: kmp_def d(1) sum.case scan_def strlen_no_nul[OF t(1)] strlen_no_nul[OF p(2)] r(1))
  have zero: "\<And>k. \<not> 0 < k \<Longrightarrow> overlap p (take k t) < length p" using z m by simp
  have "(case r of
        None \<Rightarrow> \<forall>k. k \<le> length t \<longrightarrow> overlap p (take k t) < length p
      | Some off \<Rightarrow> \<exists>k. k \<le> length t \<and> overlap p (take k t) = length p \<and>
          off = k - length p \<and> (\<forall>k'. k' < k \<longrightarrow> overlap p (take k' t) < length p))"
  proof (cases r)
    case None
    then have "\<forall>k. 0 < k \<and> k \<le> length t \<longrightarrow> overlap p (take k t) < length p" using r(2) by simp
    then have "\<forall>k. k \<le> length t \<longrightarrow> overlap p (take k t) < length p" using zero by blast
    then show ?thesis using None by simp
  next
    case (Some off)
    then obtain k where k: "0 < k" "k \<le> length t" "overlap p (take k t) = length p"
      "off = k - length p" "\<forall>k'. 0 < k' \<and> k' < k \<longrightarrow> overlap p (take k' t) < length p"
      using r(2) by auto
    have "\<forall>k'. k' < k \<longrightarrow> overlap p (take k' t) < length p" using k(5) zero by blast
    then show ?thesis using Some k(2,3,4) by auto
  qed
  then show ?thesis using d k by blast
qed

lemma kmp_leftmost:
  assumes p: "p \<noteq> []" "0 \<notin> set p" "in_alphabet sg p"
    and t: "0 \<notin> set t" "in_alphabet sg t" "length t < 2 ^ 64"
  shows "kmp sg g t p = Inr (leftmost_match p t)"
proof -
  obtain dfa r where r: "kmp sg g t p = Inr r"
     "(case r of
        None \<Rightarrow> \<forall>k. k \<le> length t \<longrightarrow> overlap p (take k t) < length p
      | Some off \<Rightarrow> \<exists>k. k \<le> length t \<and> overlap p (take k t) = length p \<and>
          off = k - length p \<and> (\<forall>k'. k' < k \<longrightarrow> overlap p (take k' t) < length p))"
    using kmp_run[OF p t, of g] by blast
  have "leftmost_match p t = r"
  proof (cases r)
    case None
    then have h: "\<forall>k. k \<le> length t \<longrightarrow> overlap p (take k t) < length p" using r(2) by simp
    have "\<forall>i. \<not> occurs_at p t i"
    proof (intro allI notI)
      fix i assume o: "occurs_at p t i"
      have b: "i + length p \<le> length t" by (rule occurs_bound[OF p(1) o])
      then have "overlap p (take (i + length p) t) = length p"
        using o by (simp add: overlap_occurs)
      then show False using h b by fastforce
    qed
    then show ?thesis using None leftmost_match_None[OF p(1)] by simp
  next
    case (Some off)
    then obtain k where k: "k \<le> length t" "overlap p (take k t) = length p"
      "off = k - length p" "\<forall>k'. k' < k \<longrightarrow> overlap p (take k' t) < length p"
      using r(2) by auto
    have o: "length p \<le> k" "occurs_at p t off"
      using k(2,3) overlap_occurs[OF k(1), of p] by simp_all
    have "\<forall>i<off. \<not> occurs_at p t i"
    proof (intro allI impI notI)
      fix i assume i: "i < off" and oi: "occurs_at p t i"
      have lt: "i + length p < k" using i k(3) by simp
      then have "i + length p \<le> length t" using k(1) by simp
      then have "overlap p (take (i + length p) t) = length p"
        using oi by (simp add: overlap_occurs)
      then show False using k(4) lt by fastforce
    qed
    then show ?thesis using Some o(2) leftmost_match_Some[OF p(1)] by simp
  qed
  then show ?thesis using r(1) by simp
qed

lemma dfa_state_Suc:
  "k < length t \<Longrightarrow>
   dfa_state sg dfa t (Suc k) = dfa (to_size_t sg (t ! k)) (dfa_state sg dfa t k)"
  by (simp add: dfa_state_def take_Suc_conv_app_nth)

lemma dfa_state_overlap:
  assumes tb: "table_upto p g dfa (length p)"
    and t: "0 \<notin> set t" "in_alphabet sg t"
  shows "k \<le> length t \<Longrightarrow> (\<forall>k'<k. dfa_state sg dfa t k' < length p) \<Longrightarrow>
         dfa_state sg dfa t k = overlap p (take k t)"
proof (induction k)
  case 0
  have "overlap p (take 0 t) = 0" using overlap_le_length[of p "take 0 t"] by simp
  then show ?case by (simp add: dfa_state_def)
next
  case (Suc k)
  have kl: "k < length t" using Suc(2) by simp
  have e: "dfa_state sg dfa t k = overlap p (take k t)" using Suc by simp
  have "dfa_state sg dfa t k < length p" using Suc(3) by simp
  then have "overlap p (take k t) < length p" using e by simp
  from table_step[OF tb t kl this] show ?case using e dfa_state_Suc[OF kl] by simp
qed

lemma kmp_accepting:
  assumes p: "p \<noteq> []" "0 \<notin> set p" "in_alphabet sg p"
    and t: "0 \<notin> set t" "in_alphabet sg t" "length t < 2 ^ 64"
    and b: "build sg g p = Inr dfa"
    and i: "i < length t" "length p \<le> dfa_state sg dfa t (Suc i)"
      "\<forall>k\<le>i. dfa_state sg dfa t k < length p"
  shows "length p \<le> Suc i \<and> kmp sg g t p = Inr (Some (Suc i - length p))"
proof -
  obtain d r where r: "build sg g p = Inr d" "table_upto p g d (length p)"
     "kmp sg g t p = Inr r"
     "(case r of
        None \<Rightarrow> \<forall>k. k \<le> length t \<longrightarrow> overlap p (take k t) < length p
      | Some off \<Rightarrow> \<exists>k. k \<le> length t \<and> overlap p (take k t) = length p \<and>
          off = k - length p \<and> (\<forall>k'. k' < k \<longrightarrow> overlap p (take k' t) < length p))"
    using kmp_run[OF p t, of g] by blast
  have tb: "table_upto p g dfa (length p)" using r(1,2) b by simp
  have ov: "\<And>k. k \<le> Suc i \<Longrightarrow> dfa_state sg dfa t k = overlap p (take k t)"
  proof -
    fix k assume k: "k \<le> Suc i"
    then have "k \<le> length t" using i(1) by simp
    moreover have "\<forall>k'<k. dfa_state sg dfa t k' < length p" using i(3) k by simp
    ultimately show "dfa_state sg dfa t k = overlap p (take k t)"
      by (rule dfa_state_overlap[OF tb t(1,2)])
  qed
  have acc: "overlap p (take (Suc i) t) = length p"
    using i(2) ov[of "Suc i"] overlap_le[of p "take (Suc i) t"] by simp
  have before: "\<And>k. k \<le> i \<Longrightarrow> overlap p (take k t) < length p"
    using i(3) ov by simp
  have len: "length p \<le> Suc i"
    using overlap_le_length[of p "take (Suc i) t"] acc i(1) by simp
  have "r = Some (Suc i - length p)"
  proof (cases r)
    case None
    then have "overlap p (take (Suc i) t) < length p" using r(4) i(1) by simp
    then show ?thesis using acc by simp
  next
    case (Some off)
    then obtain k where k: "k \<le> length t" "overlap p (take k t) = length p"
      "off = k - length p" "\<forall>k'. k' < k \<longrightarrow> overlap p (take k' t) < length p"
      using r(4) by auto
    have "\<not> k \<le> i" using before[of k] k(2) by auto
    moreover have "\<not> Suc i < k" using k(4) acc by auto
    ultimately have "k = Suc i" by simp
    then show ?thesis using Some k(3) by simp
  qed
  then show ?thesis using len r(3) by simp
qed

lemma to_size_t_zero: "c \<noteq> 0 \<Longrightarrow> to_size_t sg c \<noteq> 0"
proof (cases "to_size_t sg c < RADIX")
  case True
  assume "c \<noteq> 0"
  then show ?thesis using to_size_t_unat[OF True] unat_nonzero[of c] by simp
next
  case False
  then show ?thesis by (simp add: RADIX_def)
qed

lemma in_alphabet_unsigned: "in_alphabet False s"
  by (simp add: in_alphabet_def to_size_t_in_range)

lemma strlen_nth: "i < strlen s \<Longrightarrow> s ! i \<noteq> 0"
proof -
  assume i: "i < strlen s"
  then have "takeWhile (\<lambda>c. c \<noteq> 0) s ! i = s ! i"
    unfolding strlen_def by (rule takeWhile_nth)
  moreover have "takeWhile (\<lambda>c. c \<noteq> 0) s ! i \<in> set (takeWhile (\<lambda>c. c \<noteq> 0) s)"
    using i unfolding strlen_def by (rule nth_mem)
  ultimately show ?thesis using set_takeWhileD by fastforce
qed

lemma run_loop_cong:
  assumes eq: "\<And>r s. 0 < r \<Longrightarrow> r < RADIX \<Longrightarrow> s < m \<Longrightarrow> d r s = d' r s"
    and n: "n \<le> strlen t"
  shows "run_loop sg t n m d state i = run_loop sg t n m d' state i"
proof (induction "n - i" arbitrary: i state)
  case 0
  then have "\<not> i < n" by simp
  then show ?case by (simp add: run_loop.simps[of sg t n m _ state i])
next
  case (Suc k)
  then have il: "i < n" by simp
  then have "t ! i \<noteq> 0" using n strlen_nth[of i t] by simp
  then have nz: "0 < to_size_t sg (t ! i)" using to_size_t_zero[of "t ! i" sg] by simp
  have k: "k = n - (i + 1)" using Suc(2) by simp
  have rd: "rd m d (to_size_t sg (t ! i)) state = rd m d' (to_size_t sg (t ! i)) state"
    using eq[OF nz] by (simp add: rd_def)
  show ?case
    using il rd Suc(1)[OF k]
    by (simp add: run_loop.simps[of sg t n m _ state i] split: sum.splits)
qed

lemma scan_cong:
  assumes "\<And>r s. 0 < r \<Longrightarrow> r < RADIX \<Longrightarrow> s < m \<Longrightarrow> d r s = d' r s"
  shows "scan sg m d t = scan sg m d' t"
  unfolding scan_def by (rule run_loop_cong[OF assms]) simp_all

section \<open>Strings as the source reads them\<close>

lemma run_loop_text_cong:
  assumes "\<And>i. i < n \<Longrightarrow> t ! i = t' ! i"
  shows "run_loop sg t n m d state i = run_loop sg t' n m d state i"
proof (induction "n - i" arbitrary: i state)
  case 0
  then have "\<not> i < n" by simp
  then show ?case by (simp add: run_loop.simps[of sg _ n m d state i])
next
  case (Suc k)
  then have il: "i < n" by simp
  have k: "k = n - (i + 1)" using Suc(2) by simp
  show ?case
    using il assms[OF il] Suc(1)[OF k]
    by (simp add: run_loop.simps[of sg _ n m d state i] split: sum.splits)
qed

lemma strlen_takeWhile: "strlen (takeWhile (\<lambda>c. c \<noteq> 0) t) = strlen t"
  by (simp add: strlen_def)

lemma kmp_text_prefix: "kmp sg g t p = kmp sg g (takeWhile (\<lambda>c. c \<noteq> 0) t) p"
proof -
  have "scan sg m d t = scan sg m d (takeWhile (\<lambda>c. c \<noteq> 0) t)" for m d
    unfolding scan_def strlen_takeWhile
    by (rule run_loop_text_cong) (simp add: strlen_def takeWhile_nth)
  then show ?thesis by (simp add: kmp_def split: sum.splits)
qed

lemma bytes_simps: "bytes [] = []" "bytes (c # cs) = of_char c # bytes cs"
  by (simp_all add: bytes_def)

lemma build_bad_first:
  assumes "0 < strlen p" "\<not> to_size_t sg (p ! 0) < RADIX"
  shows "build sg g p = Inl OutOfBounds"
proof -
  have "wr (strlen p) d (to_size_t sg (p ! 0)) 0 1 = Inl OutOfBounds" for d
    using assms(2) by (simp add: wr_def)
  then show ?thesis
    by (simp add: build_def init_loop_closed[OF assms(1)])
qed


lemma build_rows:
  assumes "p \<noteq> []" "0 \<notin> set p" "in_alphabet sg p"
  shows "\<exists>dfa. build sg g p = Inr dfa
    \<and> (\<forall>s<length p. dfa 0 s = g 0 0)
    \<and> (\<forall>s<length p. \<forall>r. 0 < r \<and> r < RADIX \<longrightarrow> dfa r s \<le> Suc s \<and> dfa r s \<le> length p)
    \<and> dfa (unat (p ! 0)) 0 = 1
    \<and> (\<forall>r. 0 < r \<and> r < RADIX \<and> r \<noteq> unat (p ! 0) \<longrightarrow> dfa r 0 = 0)"
proof -
  obtain dfa where d: "build sg g p = Inr dfa" "table_upto p g dfa (length p)"
    using build_table[OF assms] by blast
  have m: "0 < length p" using assms(1) by simp
  have x: "unat (p ! 0) < RADIX" "unat (p ! 0) \<noteq> 0"
    using row_of_pattern[OF assms(2,3) m] by simp_all
  have z: "\<forall>s<length p. dfa 0 s = g 0 0"
    using d(2) by (simp add: table_upto_def RADIX_def)
  have b: "\<forall>s<length p. \<forall>r. 0 < r \<and> r < RADIX \<longrightarrow> dfa r s \<le> Suc s \<and> dfa r s \<le> length p"
    using d(2) delta_le[of p] delta_le_length[of p] by (simp add: table_upto_def)
  have h: "dfa (unat (p ! 0)) 0 = 1"
    using table_column[OF d(2) m x] delta_hit[OF m] by simp
  have o: "\<forall>r. 0 < r \<and> r < RADIX \<and> r \<noteq> unat (p ! 0) \<longrightarrow> dfa r 0 = 0"
  proof (intro allI impI)
    fix r assume r: "0 < r \<and> r < RADIX \<and> r \<noteq> unat (p ! 0)"
    have ne: "(word_of_nat r :: 8 word) \<noteq> p ! 0"
    proof
      assume "(word_of_nat r :: 8 word) = p ! 0"
      then have "unat (word_of_nat r :: 8 word) = unat (p ! 0)" by simp
      then show False using r row_char[of r] by simp
    qed
    have "dfa r 0 = delta p 0 (word_of_nat r)"
      using table_column[OF d(2) m, of r] r by simp
    then show "dfa r 0 = 0" using delta_zero[OF ne] by simp
  qed
  show ?thesis using d(1) z b h o by blast
qed

lemma ascii_a: "bytes ''a'' \<noteq> []" "0 \<notin> set (bytes ''a'')" "in_alphabet sg (bytes ''a'')"
  "length (bytes ''a'') < 2 ^ 64"
  by (simp_all add: bytes_simps in_alphabet_def to_size_t_in_range)

lemma ascii_ab: "bytes ''ab'' \<noteq> []" "0 \<notin> set (bytes ''ab'')" "in_alphabet sg (bytes ''ab'')"
  by (simp_all add: bytes_simps in_alphabet_def to_size_t_in_range)

lemma ascii_strings:
  "bytes ''aa'' \<noteq> []" "0 \<notin> set (bytes ''aa'')" "in_alphabet sg (bytes ''aa'')"
  "bytes ''aaba'' \<noteq> []" "0 \<notin> set (bytes ''aaba'')" "in_alphabet sg (bytes ''aaba'')"
  "bytes ''abab'' \<noteq> []" "0 \<notin> set (bytes ''abab'')" "in_alphabet sg (bytes ''abab'')"
  "bytes ''xyz'' \<noteq> []" "0 \<notin> set (bytes ''xyz'')" "in_alphabet sg (bytes ''xyz'')"
  "0 \<notin> set (bytes ''aaaa'')" "in_alphabet sg (bytes ''aaaa'')" "length (bytes ''aaaa'') < 2 ^ 64"
  "0 \<notin> set (bytes ''aabaabaaba'')" "in_alphabet sg (bytes ''aabaabaaba'')"
  "length (bytes ''aabaabaaba'') < 2 ^ 64"
  "0 \<notin> set (bytes ''ababab'')" "in_alphabet sg (bytes ''ababab'')"
  "length (bytes ''ababab'') < 2 ^ 64"
  by (simp_all add: bytes_simps in_alphabet_def to_size_t_in_range)

lemma leftmost_examples:
  "leftmost_match (bytes ''aa'') (bytes ''aaaa'') = Some 0"
  "leftmost_match (bytes ''aaba'') (bytes ''aabaabaaba'') = Some 0"
  "leftmost_match (bytes ''abab'') (bytes ''ababab'') = Some 0"
  "leftmost_match (bytes ''xyz'') (bytes ''aaaa'') = None"
  by code_simp+

lemma overlap_cab: "overlap (bytes ''ab'') (take 0 (bytes ''cab'')) = 0"
  "overlap (bytes ''ab'') (take 1 (bytes ''cab'')) = 0"
  "overlap (bytes ''ab'') (take 2 (bytes ''cab'')) = 1"
  "overlap (bytes ''ab'') (take 3 (bytes ''cab'')) = 2"
  by code_simp+

section \<open>Tables built over different stack contents\<close>

lemma build_step_bad_row:
  assumes "s < m" "j < m" "\<not> to_size_t sg (p ! j) < RADIX"
  shows "build_step sg p m d s j = Inl OutOfBounds"
proof -
  have "wr m d' (to_size_t sg (p ! j)) j (j + 1) = Inl OutOfBounds" for d'
    using assms(3) by (simp add: wr_def)
  then show ?thesis
    by (simp add: build_step_def copy_loop_closed[OF assms(1,2)])
qed

lemma build_step_rel:
  assumes s: "s < j" and j: "j < strlen p" and a: "tables_agree j da db"
  shows "(build_step sg p (strlen p) da s j = Inl OutOfBounds
          \<and> build_step sg p (strlen p) db s j = Inl OutOfBounds)
       \<or> (\<exists>da' db' s'. build_step sg p (strlen p) da s j = Inr (da', s')
          \<and> build_step sg p (strlen p) db s j = Inr (db', s')
          \<and> s' < Suc j \<and> tables_agree (Suc j) da' db')"
proof (cases "to_size_t sg (p ! j) < RADIX")
  case False
  have sm: "s < strlen p" using s j by simp
  show ?thesis using build_step_bad_row[OF sm j False] by simp
next
  case True
  let ?x = "unat (p ! j)"
  have sm: "s < strlen p" using s j by simp
  have x: "?x < RADIX" "0 < ?x"
    using True to_size_t_unat[OF True] strlen_nth[OF j] unat_nonzero[of "p ! j"] by simp_all
  define da' where "da' = (\<lambda>r. if r < RADIX
      then (da r)(j := if r = ?x then j + 1 else da r s) else da r)"
  define db' where "db' = (\<lambda>r. if r < RADIX
      then (db r)(j := if r = ?x then j + 1 else db r s) else db r)"
  have ea: "build_step sg p (strlen p) da s j = Inr (da', da' ?x s)"
    using build_step_closed[OF sm j True, where dfa = da] by (simp only: Let_def da'_def)
  have eb: "build_step sg p (strlen p) db s j = Inr (db', db' ?x s)"
    using build_step_closed[OF sm j True, where dfa = db] by (simp only: Let_def db'_def)
  have old: "\<And>r c. 0 < r \<Longrightarrow> r < RADIX \<Longrightarrow> c < j \<Longrightarrow> da r c = db r c \<and> da r c \<le> Suc c"
    using a unfolding tables_agree_def by blast
  have st: "da' ?x s = db' ?x s" "da' ?x s < Suc j"
    using old[OF x(2) x(1) s] s x by (simp_all add: da'_def db'_def)
  have "tables_agree (Suc j) da' db'"
    unfolding tables_agree_def
  proof (intro allI impI)
    fix r c assume r: "0 < r \<and> r < RADIX" and c: "c < Suc j"
    show "da' r c = db' r c \<and> da' r c \<le> Suc c"
    proof (cases "c = j")
      case True
      then show ?thesis using r old[of r s] s by (simp add: da'_def db'_def)
    next
      case False
      then have "c < j" using c by simp
      then show ?thesis using r old[of r c] False by (simp add: da'_def db'_def)
    qed
  qed
  then show ?thesis using ea eb st by auto
qed

lemma build_loop_rel:
  assumes "s < j" "j \<le> strlen p" "tables_agree j da db"
  shows "(build_loop sg p (strlen p) da s j = Inl OutOfBounds
          \<and> build_loop sg p (strlen p) db s j = Inl OutOfBounds)
       \<or> (\<exists>da' db' s'. build_loop sg p (strlen p) da s j = Inr (da', s')
          \<and> build_loop sg p (strlen p) db s j = Inr (db', s')
          \<and> tables_agree (strlen p) da' db')"
  using assms
proof (induction "strlen p - j" arbitrary: j s da db)
  case 0
  then have "\<not> j < strlen p" by simp
  then have "build_loop sg p (strlen p) d s j = Inr (d, s)" for d
    by (simp add: build_loop.simps[of sg p "strlen p" d s j])
  moreover have "j = strlen p" using 0(1,3) by simp
  ultimately show ?case using 0(4) by simp
next
  case (Suc n)
  then have j: "j < strlen p" by simp
  have n: "n = strlen p - Suc j" using Suc(2) by simp
  from build_step_rel[OF Suc(3) j Suc(5), of sg] show ?case
  proof
    assume "build_step sg p (strlen p) da s j = Inl OutOfBounds
          \<and> build_step sg p (strlen p) db s j = Inl OutOfBounds"
    then show ?thesis using j by (simp add: build_loop.simps[of sg p "strlen p" _ s j])
  next
    assume "\<exists>da' db' s'. build_step sg p (strlen p) da s j = Inr (da', s')
          \<and> build_step sg p (strlen p) db s j = Inr (db', s')
          \<and> s' < Suc j \<and> tables_agree (Suc j) da' db'"
    then obtain da' db' s' where st: "build_step sg p (strlen p) da s j = Inr (da', s')"
      "build_step sg p (strlen p) db s j = Inr (db', s')" "s' < Suc j"
      "tables_agree (Suc j) da' db'" by blast
    have "build_loop sg p (strlen p) da s j = build_loop sg p (strlen p) da' s' (Suc j)"
      "build_loop sg p (strlen p) db s j = build_loop sg p (strlen p) db' s' (Suc j)"
      using j st(1,2) by (simp_all add: build_loop.simps[of sg p "strlen p" _ s j])
    then show ?thesis using Suc(1)[OF n st(3) Suc_leI[OF j] st(4)] by simp
  qed
qed

lemma build_rel:
  "(build sg ga p = Inl OutOfBounds \<and> build sg gb p = Inl OutOfBounds)
   \<or> (\<exists>da db. build sg ga p = Inr da \<and> build sg gb p = Inr db
        \<and> tables_agree (strlen p) da db)"
proof (cases "0 < strlen p \<and> to_size_t sg (p ! 0) < RADIX")
  case False
  then have "build sg g p = Inl OutOfBounds" for g
  proof (cases "0 < strlen p")
    case True
    then show ?thesis using False build_bad_first[of p sg g] by simp
  next
    case False
    then have "init_loop (strlen p) g 1 = Inl OutOfBounds"
      using init_loop_empty[of 1 g] by (simp add: RADIX_def)
    then show ?thesis by (simp add: build_def)
  qed
  then show ?thesis by simp
next
  case True
  then have m: "0 < strlen p" and x0: "to_size_t sg (p ! 0) < RADIX" by simp_all
  let ?x = "unat (p ! 0)"
  have x: "to_size_t sg (p ! 0) = ?x" "?x < RADIX" "0 < ?x"
    using x0 to_size_t_unat[OF x0] strlen_nth[OF m] unat_nonzero[of "p ! 0"] by simp_all
  define first where "first = (\<lambda>g :: table. (\<lambda>r. if r = ?x then (g r)(0 := 1)
      else if 1 \<le> r \<and> r < RADIX then (g r)(0 := 0) else g r))"
  have b: "build sg g p = (case build_loop sg p (strlen p) (first g) 0 1 of
      Inl e \<Rightarrow> Inl e | Inr (d2, state) \<Rightarrow> Inr d2)" for g
  proof -
    have "wr (strlen p) (\<lambda>r. if 1 \<le> r \<and> r < RADIX then (g r)(0 := 0) else g r) ?x 0 1
        = Inr (first g)"
      using x m by (auto simp: wr_def first_def fun_eq_iff)
    then show ?thesis
      by (simp add: build_def init_loop_closed[OF m] x(1))
  qed
  have "tables_agree 1 (first ga) (first gb)"
    by (simp add: tables_agree_def first_def)
  from build_loop_rel[OF _ _ this, of 0 p sg] m show ?thesis
    by (auto simp: b)
qed

lemma kmp_stack_independent: "kmp sg ga t p = kmp sg gb t p"
proof -
  from build_rel[of sg ga p gb] show ?thesis
  proof
    assume "build sg ga p = Inl OutOfBounds \<and> build sg gb p = Inl OutOfBounds"
    then show ?thesis by (simp add: kmp_def)
  next
    assume "\<exists>da db. build sg ga p = Inr da \<and> build sg gb p = Inr db
        \<and> tables_agree (strlen p) da db"
    then obtain da db where d: "build sg ga p = Inr da" "build sg gb p = Inr db"
      "tables_agree (strlen p) da db" by blast
    have "scan sg (strlen p) da t = scan sg (strlen p) db t"
      by (rule scan_cong) (use d(3) in \<open>simp add: tables_agree_def\<close>)
    then show ?thesis using d(1,2) by (simp add: kmp_def)
  qed
qed

text \<open>
  The equation above holds between two results and also between two out-of-bounds
  accesses, where the source has no result. On a text whose characters index the table
  the run loop stays inside the table and does return.
\<close>

lemma build_nonempty: "build sg g p = Inr d \<Longrightarrow> 0 < strlen p"
proof (rule ccontr)
  assume b: "build sg g p = Inr d" and "\<not> 0 < strlen p"
  then have "init_loop (strlen p) g 1 = Inl OutOfBounds"
    using init_loop_empty[of 1 g] by (simp add: RADIX_def)
  then have "build sg g p = Inl OutOfBounds" by (simp add: build_def)
  then show False using b by simp
qed

lemma run_loop_returns:
  assumes "\<And>k. k < n \<Longrightarrow> to_size_t sg (t ! k) < RADIX"
  shows "state < m \<Longrightarrow> \<exists>r. run_loop sg t n m d state i = Inr r"
proof (induction "n - i" arbitrary: i state)
  case 0
  then have "\<not> i < n" by simp
  then show ?case by (simp add: run_loop.simps[of sg t n m d state i])
next
  case (Suc k)
  then have il: "i < n" by simp
  have k: "k = n - (i + 1)" using Suc(2) by simp
  have rd: "rd m d (to_size_t sg (t ! i)) state = Inr (d (to_size_t sg (t ! i)) state)"
    using assms[OF il] Suc(3) by (simp add: rd_def)
  show ?case
  proof (cases "m \<le> d (to_size_t sg (t ! i)) state")
    case True
    then show ?thesis using il rd by (simp add: run_loop.simps[of sg t n m d state i])
  next
    case False
    then have "d (to_size_t sg (t ! i)) state < m" by simp
    from Suc(1)[OF k this] show ?thesis
      using il rd False by (simp add: run_loop.simps[of sg t n m d state i])
  qed
qed

lemma scan_returns:
  assumes "0 < m" "in_alphabet sg (takeWhile (\<lambda>c. c \<noteq> 0) t)"
  shows "\<exists>r. scan sg m d t = Inr r"
  unfolding scan_def
proof (rule run_loop_returns[OF _ assms(1)])
  fix k assume k: "k < strlen t"
  then have "takeWhile (\<lambda>c. c \<noteq> 0) t ! k = t ! k"
    unfolding strlen_def by (rule takeWhile_nth)
  moreover have "takeWhile (\<lambda>c. c \<noteq> 0) t ! k \<in> set (takeWhile (\<lambda>c. c \<noteq> 0) t)"
    using k unfolding strlen_def by (rule nth_mem)
  ultimately show "to_size_t sg (t ! k) < RADIX"
    using assms(2) by (simp add: in_alphabet_def)
qed

lemma built_tables_scan_alike:
  assumes "build sg ga p = Inr da" "build sg gb p = Inr db"
    and "in_alphabet sg (takeWhile (\<lambda>c. c \<noteq> 0) t)"
  shows "\<exists>r. scan sg (strlen p) da t = Inr r \<and> scan sg (strlen p) db t = Inr r"
proof -
  have "tables_agree (strlen p) da db" using build_rel[of sg ga p gb] assms(1,2) by auto
  then have e: "scan sg (strlen p) da t = scan sg (strlen p) db t"
    by (intro scan_cong) (simp add: tables_agree_def)
  obtain r where "scan sg (strlen p) da t = Inr r"
    using scan_returns[OF build_nonempty[OF assms(1)] assms(3)] by blast
  then show ?thesis using e by simp
qed

section \<open>What holds on well-formed input\<close>

text \<open>
  Self-match and the invariant of the builder, on the patterns that are strings of the
  source and whose characters index the table.
\<close>

lemma kmp_self_match:
  assumes "p \<noteq> []" "0 \<notin> set p" "in_alphabet sg p" "length p < 2 ^ 64"
  shows "kmp sg g p p = Inr (Some 0)"
proof -
  have "occurs_at p p 0 \<and> (\<forall>k<0. \<not> occurs_at p p k)" by (simp add: occurs_at_def)
  then have "leftmost_match p p = Some 0"
    using leftmost_match_Some[OF assms(1), of p 0] by simp
  then show ?thesis using kmp_leftmost[OF assms(1,2,3) assms(2,3,4), of g] by simp
qed

lemma build_iteration:
  assumes "0 \<notin> set p" "in_alphabet sg p" "0 < j" "j < length p" "table_upto p g dfa j"
  shows "restart p j < j
    \<and> (\<exists>dfa'. build_step sg p (length p) dfa (restart p j) j = Inr (dfa', restart p (Suc j))
          \<and> (\<forall>r. 0 < r \<and> r < RADIX \<longrightarrow> dfa' r j \<le> Suc j) \<and> Suc j \<le> length p
          \<and> dfa' 0 j = g 0 0)"
proof -
  obtain dfa' where d: "build_step sg p (length p) dfa (restart p j) j = Inr (dfa', restart p (Suc j))"
    "table_upto p g dfa' (Suc j)"
    using build_step_inv[OF assms] by blast
  have "\<forall>r. 0 < r \<and> r < RADIX \<longrightarrow> dfa' r j \<le> Suc j"
    using d(2) delta_le[of p j] by (simp add: table_upto_def)
  moreover have "dfa' 0 j = g 0 0" using d(2) by (simp add: table_upto_def RADIX_def)
  ultimately show ?thesis using d(1) restart_less[OF assms(3)] assms(4) by auto
qed

section \<open>The claims\<close>

text \<open>
  C1, amended. For every non-empty pattern and every text that are strings of the source
  (no zero byte inside, the text shorter than \<open>2^64\<close>) and whose characters index the
  table (every character where plain \<open>char\<close> is unsigned, the characters below 0x80
  where it is signed), \<open>kmp\<close> returns the smallest offset at which the pattern occurs
  in the text, and \<open>NULL\<close> when there is none; and when the state first reaches the
  pattern length at text position \<open>i\<close>, the offset returned is \<open>i - m + 1\<close>.
\<close>

theorem kmp_returns_leftmost_match:
  assumes "p \<noteq> []" "0 \<notin> set p" "in_alphabet sg p"
    and "0 \<notin> set t" "in_alphabet sg t" "length t < 2 ^ 64"
  shows "kmp sg g t p = Inr (leftmost_match p t)
    \<and> (leftmost_match p t = None \<longleftrightarrow> (\<forall>i. \<not> occurs_at p t i))
    \<and> (\<forall>i. leftmost_match p t = Some i \<longleftrightarrow> occurs_at p t i \<and> (\<forall>k<i. \<not> occurs_at p t k))
    \<and> (\<forall>dfa i. build sg g p = Inr dfa \<and> i < length t
          \<and> length p \<le> dfa_state sg dfa t (Suc i)
          \<and> (\<forall>k\<le>i. dfa_state sg dfa t k < length p)
        \<longrightarrow> length p \<le> Suc i \<and> kmp sg g t p = Inr (Some (Suc i - length p)))"
proof (intro conjI allI impI)
  show "kmp sg g t p = Inr (leftmost_match p t)" by (rule kmp_leftmost[OF assms])
  show "leftmost_match p t = None \<longleftrightarrow> (\<forall>i. \<not> occurs_at p t i)"
    by (rule leftmost_match_None[OF assms(1)])
  show "leftmost_match p t = Some i \<longleftrightarrow> occurs_at p t i \<and> (\<forall>k<i. \<not> occurs_at p t k)" for i
    by (rule leftmost_match_Some[OF assms(1)])
next
  fix dfa i
  assume a: "build sg g p = Inr dfa \<and> i < length t
          \<and> length p \<le> dfa_state sg dfa t (Suc i)
          \<and> (\<forall>k\<le>i. dfa_state sg dfa t k < length p)"
  then have b: "build sg g p = Inr dfa" and i: "i < length t"
    and s: "length p \<le> dfa_state sg dfa t (Suc i)"
    and e: "\<forall>k\<le>i. dfa_state sg dfa t k < length p"
    by blast+
  have r: "length p \<le> Suc i \<and> kmp sg g t p = Inr (Some (Suc i - length p))"
    by (rule kmp_accepting[OF assms b i s e])
  show "length p \<le> Suc i" using r by simp
  show "kmp sg g t p = Inr (Some (Suc i - length p))" using r by simp
qed

theorem kmp_returns_leftmost_match_witness:
  "bytes ''ab'' \<noteq> [] \<and> 0 \<notin> set (bytes ''ab'') \<and> in_alphabet True (bytes ''ab'')
   \<and> 0 \<notin> set (bytes ''cab'') \<and> in_alphabet True (bytes ''cab'')
   \<and> length (bytes ''cab'') < 2 ^ 64
   \<and> kmp True (\<lambda>_ _. 7) (bytes ''cab'') (bytes ''ab'') = Inr (Some 1)
   \<and> occurs_at (bytes ''ab'') (bytes ''cab'') 1
   \<and> \<not> occurs_at (bytes ''ab'') (bytes ''cab'') 0
   \<and> (\<exists>dfa. build True (\<lambda>_ _. 7) (bytes ''ab'') = Inr dfa
        \<and> dfa_state True dfa (bytes ''cab'') 3 = 2
        \<and> (\<forall>k\<le>2. dfa_state True dfa (bytes ''cab'') k < 2))"
proof -
  let ?p = "bytes ''ab''" and ?t = "bytes ''cab''"
  have p: "?p \<noteq> []" "0 \<notin> set ?p" "in_alphabet True ?p"
    by (simp_all add: bytes_simps in_alphabet_def to_size_t_in_range)
  have t: "0 \<notin> set ?t" "in_alphabet True ?t" "length ?t < 2 ^ 64"
    by (simp_all add: bytes_simps in_alphabet_def to_size_t_in_range)
  have l: "leftmost_match ?p ?t = Some 1"
    by (simp add: leftmost_match_def occurs_at_def bytes_simps)
  have o: "occurs_at ?p ?t 1" "\<not> occurs_at ?p ?t 0"
    by (simp_all add: occurs_at_def bytes_simps)
  have len: "length ?p = 2" "length ?t = 3" by (simp_all add: bytes_simps)
  obtain dfa where d: "build True (\<lambda>_ _. 7) ?p = Inr dfa" "table_upto ?p (\<lambda>_ _. 7) dfa (length ?p)"
    using build_table[OF p] by blast
  note so = dfa_state_overlap[OF d(2) t(1,2)]
  have s0: "dfa_state True dfa ?t 0 = 0" using so[of 0] overlap_cab(1) by simp
  have s1: "dfa_state True dfa ?t 1 = 0"
  proof -
    have "\<forall>k'<1. dfa_state True dfa ?t k' < length ?p" using s0 len by simp
    then show ?thesis using so[of 1] overlap_cab(2) len by simp
  qed
  have s2: "dfa_state True dfa ?t 2 = 1"
  proof -
    have "\<forall>k'<2. dfa_state True dfa ?t k' < length ?p"
    proof (intro allI impI)
      fix k' :: nat assume "k' < 2"
      then have "k' = 0 \<or> k' = 1" by arith
      then show "dfa_state True dfa ?t k' < length ?p" using s0 s1 len by auto
    qed
    then show ?thesis using so[of 2] overlap_cab(3) len by simp
  qed
  have b: "\<forall>k\<le>2. dfa_state True dfa ?t k < 2"
  proof (intro allI impI)
    fix k :: nat assume "k \<le> 2"
    then have "k = 0 \<or> k = 1 \<or> k = 2" by arith
    then show "dfa_state True dfa ?t k < 2" using s0 s1 s2 by auto
  qed
  have s3: "dfa_state True dfa ?t 3 = 2"
  proof -
    have "\<forall>k'<3. dfa_state True dfa ?t k' < length ?p"
    proof (intro allI impI)
      fix k' :: nat assume "k' < 3"
      then have "k' \<le> 2" by arith
      then show "dfa_state True dfa ?t k' < length ?p" using b len by simp
    qed
    then show ?thesis using so[of 3] overlap_cab(4) len by simp
  qed
  note k = kmp_returns_leftmost_match[OF p t, of "\<lambda>_ _. 7"]
  have r: "kmp True (\<lambda>_ _. 7) ?t ?p = Inr (Some 1)" using k l by simp
  show ?thesis using p t o r d(1) s3 b by blast
qed

text \<open>
  C1 as stated, for every text over the 256 byte values, does not hold. A zero byte ends
  the text, as in every string of the source: in the bytes \<open>b, 0, a\<close> the pattern
  \<open>a\<close> occurs at offset 2, and \<open>kmp\<close> searches \<open>b\<close> only. And where plain
  \<open>char\<close> is signed, the byte 0x80 is cast to the row \<open>2^64 - 128\<close>.
\<close>

theorem kmp_leftmost_counterexample:
  "kmp False (\<lambda>_ _. 0) [0x62, 0x00, 0x61] [0x61] = Inr None
   \<and> occurs_at [0x61] [0x62, 0x00, 0x61 :: 8 word] 2
   \<and> kmp True (\<lambda>_ _. 0) [0x80] [0x80] = Inl OutOfBounds
   \<and> occurs_at [0x80] [0x80 :: 8 word] 0"
proof -
  have "kmp False (\<lambda>_ _. 0) [0x62, 0x00, 0x61] [0x61] = kmp False (\<lambda>_ _. 0) [0x62] [0x61]"
    by (subst kmp_text_prefix) simp
  also have "\<dots> = Inr (leftmost_match [0x61] [0x62 :: 8 word])"
    by (rule kmp_leftmost) (simp_all add: in_alphabet_unsigned)
  also have "leftmost_match [0x61] [0x62 :: 8 word] = None"
    by (simp add: leftmost_match_def occurs_at_def)
  finally have a: "kmp False (\<lambda>_ _. 0) [0x62, 0x00, 0x61] [0x61] = Inr None" .
  have "build True (\<lambda>_ _. 0) [0x80] = Inl OutOfBounds"
    by (rule build_bad_first) (simp_all add: strlen_def to_size_t_in_range)
  then have b: "kmp True (\<lambda>_ _. 0) [0x80] [0x80] = Inl OutOfBounds" by (simp add: kmp_def)
  show ?thesis using a b by (simp add: occurs_at_def)
qed

text \<open>
  C2. The specification lets \<open>build\<close> fail with an \<open>InvalidPattern\<close> condition on an
  empty pattern. The source has no such check: with \<open>patternlen = 0\<close> the table has no
  column, and the first statement of the initialisation, \<open>dfa[1][0] = 0\<close>, already
  writes outside it. The theorem evaluates the source on the empty pattern, for every
  text, stack content and signedness of \<open>char\<close>.
\<close>

theorem kmp_empty_pattern_out_of_bounds:
  "build sg g [] = Inl OutOfBounds \<and> kmp sg g t [] = Inl OutOfBounds"
proof -
  have "init_loop 0 g 1 = Inl OutOfBounds"
    by (rule init_loop_empty) (simp add: RADIX_def)
  then have "build sg g [] = Inl OutOfBounds"
    by (simp add: build_def strlen_def)
  then show ?thesis by (simp add: kmp_def)
qed

text \<open>
  C3. The table is not total over the 256 symbols: the initialisation loop starts at
  \<open>i = 1\<close>, so \<open>dfa[0][0]\<close> is never written. On the pattern \<open>a\<close> the built
  table holds there what the stack held before (first conjunct, for every stack
  content \<open>g\<close>); with a 7 there, the entry is not a state in \<open>[0, 1]\<close>. The rows 1 to
  255 are written and in range: lemma \<open>build_rows\<close>.
\<close>

theorem build_row_zero_never_written:
  "(\<exists>dfa. build sg g (bytes ''a'') = Inr dfa \<and> dfa 0 0 = g 0 0)
   \<and> (\<exists>dfa. build sg (\<lambda>_ _. 7) (bytes ''a'') = Inr dfa \<and> dfa 0 0 = 7
         \<and> \<not> dfa 0 0 \<le> strlen (bytes ''a''))"
proof -
  have l: "length (bytes ''a'') = 1" "strlen (bytes ''a'') = 1"
    by (simp_all add: bytes_simps strlen_def)
  have "\<exists>dfa. build sg g (bytes ''a'') = Inr dfa \<and> dfa 0 0 = g 0 0" for g
    using build_rows[OF ascii_a(1,2,3), of sg g] l by auto
  from this[of g] this[of "\<lambda>_ _. 7"] show ?thesis using l by auto
qed

text \<open>
  C4. Column 0 of the table of \<open>ab\<close>: the symbol 0 is not \<open>pattern[0]\<close>, and its
  entry \<open>dfa[0][0]\<close> is not 0 but what the stack held, here 7: the loop that fills
  column 0 starts at symbol 1. The symbols 1 to 255 are as the claim says: lemma
  \<open>build_rows\<close>.
\<close>

theorem column_zero_row_zero_never_written:
  "\<exists>dfa. build sg (\<lambda>_ _. 7) (bytes ''ab'') = Inr dfa
     \<and> (0 :: 8 word) \<noteq> bytes ''ab'' ! 0 \<and> to_size_t sg 0 = 0
     \<and> dfa (to_size_t sg 0) 0 = 7"
proof -
  have l: "length (bytes ''ab'') = 2" by (simp add: bytes_simps)
  have z: "to_size_t sg 0 = 0"
    using to_size_t_unat[of sg 0] by (simp add: to_size_t_in_range)
  have "\<exists>dfa. build sg (\<lambda>_ _. 7) (bytes ''ab'') = Inr dfa \<and> dfa 0 0 = 7"
    using build_rows[OF ascii_ab, of sg "\<lambda>_ _. 7"] l by auto
  then show ?thesis using z by (auto simp: bytes_simps)
qed

text \<open>
  C5. Where plain \<open>char\<close> is signed, the cast \<open>(size_t)c\<close> of the byte 0x80 is
  \<open>2^64 - 128\<close>, not a row of the table: building the table of the pattern 0x80
  writes \<open>dfa[2^64 - 128][0]\<close>, and scanning the text 0x80 with the table of \<open>a\<close>
  reads \<open>dfa[2^64 - 128][0]\<close>.
\<close>

theorem signed_char_row_out_of_range:
  "to_size_t True 0x80 = 2 ^ 64 - 128 \<and> \<not> to_size_t True 0x80 < RADIX
   \<and> build True g [0x80] = Inl OutOfBounds
   \<and> kmp True g [0x80] (bytes ''a'') = Inl OutOfBounds"
proof -
  have a: "to_size_t True 0x80 = 2 ^ 64 - 128"
    using to_size_t_signed_high[of "0x80"] by simp
  have b: "\<not> to_size_t True 0x80 < RADIX" by (simp add: to_size_t_in_range)
  have c: "build True g [0x80] = Inl OutOfBounds"
    by (rule build_bad_first) (simp_all add: strlen_def to_size_t_in_range)
  obtain dfa where d: "build True g (bytes ''a'') = Inr dfa"
    using build_table[OF ascii_a(1,2,3), of True g] by blast
  have "rd m dfa (to_size_t True 0x80) 0 = Inl OutOfBounds" for m
    using b by (simp add: rd_def)
  then have "scan True m dfa [0x80] = Inl OutOfBounds" for m
    by (simp add: scan_def strlen_def run_loop.simps[of True "[0x80]" "Suc 0" m dfa 0 0])
  then have "kmp True g [0x80] (bytes ''a'') = Inl OutOfBounds"
    using d by (simp add: kmp_def)
  then show ?thesis using a b c by simp
qed


text \<open>
  C7. Self-match, \<open>kmp(p, p) = &p[0]\<close>, fails where plain \<open>char\<close> is signed and the
  pattern has a byte of 0x80 or more: the pattern of the two bytes 0xC3, 0xA9 (the UTF-8
  encoding of one accented letter) makes \<open>dfa[(size_t)pattern[0]][0] = 1\<close> write row
  \<open>2^64 - 61\<close>. On the patterns whose characters index the table the property holds:
  lemma \<open>kmp_self_match\<close>.
\<close>

theorem kmp_self_match_out_of_bounds:
  "kmp True g [0xC3, 0xA9] [0xC3, 0xA9] = Inl OutOfBounds"
proof -
  have "build True g [0xC3, 0xA9] = Inl OutOfBounds"
    by (rule build_bad_first) (simp_all add: strlen_def to_size_t_in_range)
  then show ?thesis by (simp add: kmp_def)
qed

text \<open>
  C8. The four searches of the specification, for every stack content and signedness of
  \<open>char\<close>: \<open>aa\<close> in \<open>aaaa\<close>, \<open>aaba\<close> in \<open>aabaabaaba\<close> and \<open>abab\<close> in
  \<open>ababab\<close> are found at offset 0, and \<open>xyz\<close> is not found in \<open>aaaa\<close>.
\<close>

theorem kmp_spec_examples:
  "kmp sg g (bytes ''aaaa'') (bytes ''aa'') = Inr (Some 0)
   \<and> kmp sg g (bytes ''aabaabaaba'') (bytes ''aaba'') = Inr (Some 0)
   \<and> kmp sg g (bytes ''ababab'') (bytes ''abab'') = Inr (Some 0)
   \<and> kmp sg g (bytes ''aaaa'') (bytes ''xyz'') = Inr None"
proof -
  have "kmp sg g (bytes ''aaaa'') (bytes ''aa'') = Inr (leftmost_match (bytes ''aa'') (bytes ''aaaa''))"
    by (rule kmp_leftmost[OF ascii_strings(1,2,3) ascii_strings(13,14,15)])
  moreover have "kmp sg g (bytes ''aabaabaaba'') (bytes ''aaba'')
      = Inr (leftmost_match (bytes ''aaba'') (bytes ''aabaabaaba''))"
    by (rule kmp_leftmost[OF ascii_strings(4,5,6) ascii_strings(16,17,18)])
  moreover have "kmp sg g (bytes ''ababab'') (bytes ''abab'')
      = Inr (leftmost_match (bytes ''abab'') (bytes ''ababab''))"
    by (rule kmp_leftmost[OF ascii_strings(7,8,9) ascii_strings(19,20,21)])
  moreover have "kmp sg g (bytes ''aaaa'') (bytes ''xyz'')
      = Inr (leftmost_match (bytes ''xyz'') (bytes ''aaaa''))"
    by (rule kmp_leftmost[OF ascii_strings(10,11,12) ascii_strings(13,14,15)])
  ultimately show ?thesis by (simp only: leftmost_examples simp_thms)
qed

text \<open>
  C9. Two scans do not return the same result for every text. Where plain \<open>char\<close> is
  signed, a text with a byte of 0x80 or more makes the run loop read
  \<open>dfa[(size_t)text[i]][state]\<close> outside the table: on the text of the one byte 0xE9
  the row is \<open>2^64 - 23\<close>, with the table of \<open>a\<close> built over a stack of zeros as with
  the one built over a stack of sevens. What is read there is not an entry of either
  table, so neither table nor text determines the result. On the texts whose characters
  index the table the two tables return the same result: lemma
  \<open>built_tables_scan_alike\<close>.
\<close>

theorem scan_high_byte_out_of_bounds:
  "\<exists>da db. build True (\<lambda>_ _. 0) (bytes ''a'') = Inr da
     \<and> build True (\<lambda>_ _. 7) (bytes ''a'') = Inr db
     \<and> to_size_t True 0xE9 = 2 ^ 64 - 23
     \<and> scan True (strlen (bytes ''a'')) da [0xE9] = Inl OutOfBounds
     \<and> scan True (strlen (bytes ''a'')) db [0xE9] = Inl OutOfBounds"
proof -
  obtain da where da: "build True (\<lambda>_ _. 0) (bytes ''a'') = Inr da"
    using build_table[OF ascii_a(1,2,3), of True "\<lambda>_ _. 0"] by blast
  obtain db where db: "build True (\<lambda>_ _. 7) (bytes ''a'') = Inr db"
    using build_table[OF ascii_a(1,2,3), of True "\<lambda>_ _. 7"] by blast
  have a: "to_size_t True 0xE9 = 2 ^ 64 - 23"
    using to_size_t_signed_high[of "0xE9"] by simp
  have "\<not> to_size_t True 0xE9 < RADIX" by (simp add: to_size_t_in_range)
  then have "rd m d (to_size_t True 0xE9) 0 = Inl OutOfBounds" for m d
    by (simp add: rd_def)
  then have "scan True m d [0xE9] = Inl OutOfBounds" for m d
    by (simp add: scan_def strlen_def run_loop.simps[of True "[0xE9]" "Suc 0" m d 0 0])
  then show ?thesis using da db a by blast
qed

text \<open>
  C10. The restart state is below \<open>j\<close> at iteration \<open>j\<close>, and the entries the
  iteration writes in the rows 1 to 255 are at most \<open>j + 1\<close>: lemma
  \<open>build_iteration\<close>. But the column it copies from is not fully written, and not every
  entry it writes is at most \<open>j + 1\<close>: on the pattern \<open>ab\<close>, over a stack that held
  7, iteration 1 copies the entry \<open>dfa[0][0]\<close>, which the initialisation left out, to
  \<open>dfa[0][1]\<close>.
\<close>

theorem build_step_copies_unwritten_entry:
  "\<exists>d0 d1 d2 state.
      init_loop 2 (\<lambda>_ _. 7) 1 = Inr d0
    \<and> wr 2 d0 (to_size_t sg (bytes ''ab'' ! 0)) 0 1 = Inr d1
    \<and> d1 0 0 = 7
    \<and> build_step sg (bytes ''ab'') 2 d1 0 1 = Inr (d2, state)
    \<and> d2 0 1 = 7 \<and> \<not> d2 0 1 \<le> 1 + 1"
proof -
  let ?g = "\<lambda>(_ :: nat) (_ :: nat). 7 :: nat"
  have a: "to_size_t sg 97 = 97" "to_size_t sg 98 = 98"
    using to_size_t_unat[of sg 97] to_size_t_unat[of sg 98]
    by (simp_all add: to_size_t_in_range)
  define d0 where "d0 = (\<lambda>r. if 1 \<le> r \<and> r < RADIX then (?g r)(0 := 0) else ?g r)"
  have i: "init_loop 2 ?g 1 = Inr d0"
    unfolding d0_def by (rule init_loop_closed) simp
  define d1 where "d1 = d0(97 := (d0 97)(0 := 1))"
  have w: "wr 2 d0 (to_size_t sg (bytes ''ab'' ! 0)) 0 1 = Inr d1"
    by (simp add: wr_def bytes_simps a RADIX_def d1_def)
  have z: "d1 0 0 = 7" by (simp add: d1_def d0_def)
  define d2 where "d2 = (\<lambda>r. if r < RADIX
      then (d1 r)(1 := if r = unat (bytes ''ab'' ! 1) then 1 + 1 else d1 r 0) else d1 r)"
  have c: "(0 :: nat) < 2" "(1 :: nat) < 2" "to_size_t sg (bytes ''ab'' ! 1) < RADIX"
    by (simp_all add: bytes_simps a RADIX_def)
  have s: "build_step sg (bytes ''ab'') 2 d1 0 1 = Inr (d2, d2 (unat (bytes ''ab'' ! 1)) 0)"
    using build_step_closed[where state = 0 and m = 2 and j = 1 and sg = sg
        and pattern = "bytes ''ab''" and dfa = d1, OF c]
    by (simp only: Let_def d2_def)
  have e: "d2 0 1 = 7" by (simp add: d2_def RADIX_def z bytes_simps)
  show ?thesis
    using i w z s e
    by (intro exI[of _ d0] exI[of _ d1] exI[of _ d2] exI[of _ "d2 (unat (bytes ''ab'' ! 1)) 0"]) simp
qed

end
